theory Spec2Isabelle
  imports Complex_Main
begin

section \<open>Brute-force Morse decoder: shallow embedding of morse.py\<close>

text \<open>
  Conventions of the embedding.
  \<^item> Python strings are \<open>string\<close>; a one-character string used as a dictionary key is a
    \<open>char\<close>.
  \<^item> The nested dictionaries of the Morse trie are association lists in insertion order.
    A value stored in such a dictionary is either another dictionary or a string (the letter
    stored under the key \<open>$\<close>), hence the type \<open>pyval\<close>.
  \<^item> Scores are Python floats in the source. They are modelled as exact rationals: every
    constant of the source (\<open>0.25\<close>, \<open>0.65\<close>, ..., \<open>5.0\<close>) is read as the decimal
    fraction it is written as, and the rounding of binary floating point is not modelled.
    Two sums that are equal as rationals can differ in their last bit as floats, so where
    two scores tie here, the comparison \<open>visited[key] >= score\<close> or a sort can fall the
    other way in the source.
  \<^item> Exceptions are values of the type \<open>error\<close>; a function that can raise returns
    \<open>error + 'a\<close>.
\<close>

subsection \<open>Configuration\<close>

record config =
  beam_width :: nat
  max_word_len :: nat
  max_results :: nat

definition BEAM_WIDTH :: nat where
  "BEAM_WIDTH = 12000"

definition MAX_WORD_LEN :: nat where
  "MAX_WORD_LEN = 15"

definition MAX_RESULTS :: nat where
  "MAX_RESULTS = 20"

definition ENABLE_REVERSE_POLARITY :: bool where
  "ENABLE_REVERSE_POLARITY = True"

definition module_config :: config where
  "module_config =
     \<lparr>beam_width = BEAM_WIDTH, max_word_len = MAX_WORD_LEN, max_results = MAX_RESULTS\<rparr>"

subsection \<open>Python values and errors\<close>

datatype error = TypeError | KeyError | AttributeError

datatype pyval = Dict "(char \<times> pyval) list" | Str string

text \<open>\<open>d[k] = v\<close> on a dictionary: an existing key keeps its place, a new key goes last.\<close>

fun dict_set :: "('k \<times> 'v) list \<Rightarrow> 'k \<Rightarrow> 'v \<Rightarrow> ('k \<times> 'v) list" where
  "dict_set [] k v = [(k, v)]"
| "dict_set ((k', v') # es) k v =
     (if k' = k then (k, v) # es else (k', v') # dict_set es k v)"

text \<open>
  \<open>c in node\<close> for a one-character string \<open>c\<close>: key membership on a dictionary, substring
  test on a string.
\<close>

fun py_in :: "char \<Rightarrow> pyval \<Rightarrow> bool" where
  "py_in c (Dict es) = (map_of es c \<noteq> None)"
| "py_in c (Str s) = (c \<in> set s)"

text \<open>\<open>node[c]\<close>: lookup on a dictionary (KeyError when absent), TypeError on a string.\<close>

fun py_get :: "pyval \<Rightarrow> char \<Rightarrow> error + pyval" where
  "py_get (Dict es) c = (case map_of es c of None \<Rightarrow> Inl KeyError | Some v \<Rightarrow> Inr v)"
| "py_get (Str s) c = Inl TypeError"

subsection \<open>Morse alphabet\<close>

definition MORSE :: "(string \<times> string) list" where
  "MORSE =
    [(''.-'', ''A''), (''-...'', ''B''), (''-.-.'', ''C''), (''-..'', ''D''), (''.'', ''E''),
     (''..-.'', ''F''), (''--.'', ''G''), (''....'', ''H''), (''..'', ''I''), (''.---'', ''J''),
     (''-.-'', ''K''), (''.-..'', ''L''), (''--'', ''M''), (''-.'', ''N''), (''---'', ''O''),
     (''.--.'', ''P''), (''--.-'', ''Q''), (''.-.'', ''R''), (''...'', ''S''), (''-'', ''T''),
     (''..-'', ''U''), (''...-'', ''V''), (''.--'', ''W''), (''-..-'', ''X''),
     (''-.--'', ''Y''), (''--..'', ''Z'')]"

subsection \<open>Building the Morse trie\<close>

text \<open>
  The body of the outer loop of \<open>build_morse_trie\<close> for one \<open>(code, letter)\<close> pair: walk
  down with \<open>node = node.setdefault(s, {})\<close> for each symbol of the code, then
  \<open>node["$"] = letter\<close>. The in-place mutation is returned as the rebuilt node. When the walk
  lands on a string (a letter stored under \<open>$\<close>), \<open>setdefault\<close> raises AttributeError and the
  item assignment raises TypeError.
\<close>

fun set_code :: "pyval \<Rightarrow> string \<Rightarrow> string \<Rightarrow> error + pyval" where
  "set_code (Dict es) [] letter = Inr (Dict (dict_set es CHR ''$'' (Str letter)))"
| "set_code (Str v) [] letter = Inl TypeError"
| "set_code (Dict es) (s # code) letter =
     (case map_of es s of
        None \<Rightarrow>
          (case set_code (Dict []) code letter of
             Inl e \<Rightarrow> Inl e
           | Inr child \<Rightarrow> Inr (Dict (es @ [(s, child)])))
      | Some child \<Rightarrow>
          (case set_code child code letter of
             Inl e \<Rightarrow> Inl e
           | Inr child' \<Rightarrow> Inr (Dict (dict_set es s child'))))"
| "set_code (Str v) (s # code) letter = Inl AttributeError"

fun build_from :: "pyval \<Rightarrow> (string \<times> string) list \<Rightarrow> error + pyval" where
  "build_from trie [] = Inr trie"
| "build_from trie ((code, letter) # rest) =
     (case set_code trie code letter of
        Inl e \<Rightarrow> Inl e
      | Inr trie' \<Rightarrow> build_from trie' rest)"

definition build_morse_trie :: "(string \<times> string) list \<Rightarrow> error + pyval" where
  "build_morse_trie morse_map = build_from (Dict []) morse_map"

text \<open>
  \<open>MORSE_TRIE = build_morse_trie(MORSE)\<close> at module level. The build does not raise on
  \<open>MORSE\<close> (lemma \<open>build_MORSE_TRIE\<close> below), so the error branch is never taken.
\<close>

definition MORSE_TRIE :: pyval where
  "MORSE_TRIE = (case build_morse_trie MORSE of Inr trie \<Rightarrow> trie | Inl e \<Rightarrow> Dict [])"

text \<open>Reading the trie: the node at the end of a path, and the letter a node carries.\<close>

fun descend :: "pyval \<Rightarrow> string \<Rightarrow> pyval option" where
  "descend node [] = Some node"
| "descend (Dict es) (s # code) =
     (case map_of es s of None \<Rightarrow> None | Some child \<Rightarrow> descend child code)"
| "descend (Str v) (s # code) = None"

fun letter_of :: "pyval \<Rightarrow> string option" where
  "letter_of (Dict es) =
     (case map_of es CHR ''$'' of Some (Str letter) \<Rightarrow> Some letter | _ \<Rightarrow> None)"
| "letter_of (Str v) = None"

definition letter_at :: "pyval \<Rightarrow> string \<Rightarrow> string option" where
  "letter_at trie code =
     (case descend trie code of None \<Rightarrow> None | Some node \<Rightarrow> letter_of node)"

text \<open>
  All terminal (letter-carrying) nodes of a trie, each listed once with the path that leads
  to it from the root.
\<close>

fun terminals :: "pyval \<Rightarrow> (string \<times> string) list" where
  "terminals (Str v) = []"
| "terminals (Dict es) =
     (case letter_of (Dict es) of None \<Rightarrow> [] | Some letter \<Rightarrow> [([], letter)]) @
     concat (map (\<lambda>e. map (\<lambda>t. (fst e # fst t, snd t)) (terminals (snd e))) es)"

subsection \<open>Language scoring\<close>

definition LETTER_FREQ :: "(string \<times> rat) list" where
  "LETTER_FREQ =
    [(''E'', 1), (''T'', 9/10), (''A'', 85/100), (''O'', 85/100), (''N'', 8/10), (''R'', 8/10),
     (''I'', 75/100), (''S'', 75/100), (''H'', 7/10), (''L'', 7/10), (''D'', 65/100)]"

definition score_letter :: "string \<Rightarrow> rat" where
  "score_letter c = (case map_of LETTER_FREQ c of Some w \<Rightarrow> w | None \<Rightarrow> 25/100)"

text \<open>\<open>for c in word: score += score_letter(c)\<close>, each \<open>c\<close> a one-character string.\<close>

fun add_letters :: "string \<Rightarrow> rat \<Rightarrow> rat" where
  "add_letters [] score = score"
| "add_letters (c # word) score = add_letters word (score + score_letter [c])"

definition score_word :: "string \<Rightarrow> string set \<Rightarrow> rat" where
  "score_word word dictionary =
     (let score = add_letters word 0;
          score = (if word \<in> dictionary then score + 5 else score);
          score = (if length word > 12 then score - 2 else score)
      in score)"

subsection \<open>Brute-force decoder\<close>

text \<open>
  A search state is the tuple \<open>(bit_pos, current_word, sentence_tuple, score)\<close>; the memo
  table \<open>visited\<close> maps \<open>(pos, current_word)\<close> to the best score seen; a result is a pair
  \<open>(text, score)\<close>.
\<close>

type_synonym state = "nat \<times> string \<times> string list \<times> rat"
type_synonym memo = "(nat \<times> string) \<rightharpoonup> rat"
type_synonym result = "string \<times> rat"

definition state_score :: "state \<Rightarrow> rat" where
  "state_score s = snd (snd (snd s))"

text \<open>\<open>" ".join(words)\<close>\<close>

fun join_words :: "string list \<Rightarrow> string" where
  "join_words [] = []"
| "join_words [w] = w"
| "join_words (w # ws) = w @ '' '' @ join_words ws"

text \<open>
  The Morse trie walk of one state: the inner \<open>while i < n and bits[i] in node\<close> loop. It
  appends to \<open>next_states\<close>; \<open>node[bits[i]]\<close>, \<open>node["$"]\<close> and \<open>cur_word + letter\<close> raise
  where Python raises.
\<close>

function trie_walk ::
  "config \<Rightarrow> string \<Rightarrow> string \<Rightarrow> string list \<Rightarrow> rat \<Rightarrow> pyval \<Rightarrow> nat \<Rightarrow> state list
     \<Rightarrow> error + state list" where
  "trie_walk cfg bits cur_word sentence score node i next_states =
     (if i < length bits \<and> py_in (bits ! i) node then
        (case py_get node (bits ! i) of
           Inl e \<Rightarrow> Inl e
         | Inr node' \<Rightarrow>
             (if py_in CHR ''$'' node' \<and> length cur_word < max_word_len cfg then
                (case py_get node' CHR ''$'' of
                   Inl e \<Rightarrow> Inl e
                 | Inr (Dict es) \<Rightarrow> Inl TypeError
                 | Inr (Str letter) \<Rightarrow>
                     trie_walk cfg bits cur_word sentence score node' (Suc i)
                       (next_states @
                          [(Suc i, cur_word @ letter, sentence, score + score_letter letter)]))
              else trie_walk cfg bits cur_word sentence score node' (Suc i) next_states))
      else Inr next_states)"
  by pat_completeness auto
termination
  by (relation "measure (\<lambda>(cfg, bits, cur_word, sentence, score, node, i, next_states).
                   length bits - i)") auto

declare trie_walk.simps [simp del]

text \<open>
  The body of \<open>for pos, cur_word, sentence, score in states\<close>, on the three variables it
  updates: \<open>visited\<close>, \<open>results\<close> and \<open>next_states\<close>.
\<close>

definition dominated :: "memo \<Rightarrow> nat \<times> string \<Rightarrow> rat \<Rightarrow> bool" where
  "dominated visited key score =
     (case visited key of None \<Rightarrow> False | Some best \<Rightarrow> best \<ge> score)"

definition process_state ::
  "config \<Rightarrow> string \<Rightarrow> string set \<Rightarrow> state \<Rightarrow> memo \<times> result list \<times> state list
     \<Rightarrow> error + memo \<times> result list \<times> state list" where
  "process_state cfg bits dictionary st acc =
     (case st of (pos, cur_word, sentence, score) \<Rightarrow>
      case acc of (visited, results, next_states) \<Rightarrow>
        if dominated visited (pos, cur_word) score then Inr (visited, results, next_states)
        else
          let visited' = visited((pos, cur_word) \<mapsto> score) in
          if pos = length bits then
            (if cur_word \<noteq> [] \<and> cur_word \<in> dictionary then
               Inr (visited',
                    results @ [(join_words (sentence @ [cur_word]),
                                score + score_word cur_word dictionary)],
                    next_states)
             else Inr (visited', results, next_states))
          else
            (case trie_walk cfg bits cur_word sentence score MORSE_TRIE pos next_states of
               Inl e \<Rightarrow> Inl e
             | Inr next_states' \<Rightarrow>
                 if cur_word \<noteq> [] \<and> cur_word \<in> dictionary then
                   Inr (visited', results,
                        next_states' @
                          [(pos, [], sentence @ [cur_word],
                            score + score_word cur_word dictionary - 2/10)])
                 else Inr (visited', results, next_states')))"

fun for_states ::
  "config \<Rightarrow> string \<Rightarrow> string set \<Rightarrow> state list \<Rightarrow> memo \<times> result list \<times> state list
     \<Rightarrow> error + memo \<times> result list \<times> state list" where
  "for_states cfg bits dictionary [] acc = Inr acc"
| "for_states cfg bits dictionary (st # states) acc =
     (case process_state cfg bits dictionary st acc of
        Inl e \<Rightarrow> Inl e
      | Inr acc' \<Rightarrow> for_states cfg bits dictionary states acc')"

text \<open>Beam pruning: \<open>next_states.sort(key=lambda x: -x[3]); next_states[:BEAM_WIDTH]\<close>.\<close>

definition prune :: "config \<Rightarrow> state list \<Rightarrow> state list" where
  "prune cfg next_states =
     take (beam_width cfg) (sort_key (\<lambda>x. - state_score x) next_states)"

text \<open>
  The measure that decreases from one generation to the next: a state weighs twice its
  distance to the end of the bits, plus one when its current word is not empty.
\<close>

definition state_weight :: "nat \<Rightarrow> state \<Rightarrow> nat" where
  "state_weight n s = 2 * (n - fst s) + (if fst (snd s) = [] then 0 else 1)"

fun frontier_weight :: "nat \<Rightarrow> state list \<Rightarrow> nat" where
  "frontier_weight n [] = 0"
| "frontier_weight n (s # states) = max (Suc (state_weight n s)) (frontier_weight n states)"

text \<open>
  The \<open>while states:\<close> loop. One call is one generation: the \<open>for\<close> loop over the active
  states, then beam pruning. Its termination is proved in the next section.
\<close>

function decode_loop ::
  "config \<Rightarrow> string \<Rightarrow> string set \<Rightarrow> state list \<Rightarrow> memo \<Rightarrow> result list
     \<Rightarrow> error + result list" where
  "decode_loop cfg bits dictionary states visited results =
     (if states = [] then Inr results
      else
        (case for_states cfg bits dictionary states (visited, results, []) of
           Inl e \<Rightarrow> Inl e
         | Inr (visited', results', next_states) \<Rightarrow>
             decode_loop cfg bits dictionary (prune cfg next_states) visited' results'))"
  by pat_completeness auto

text \<open>
  \<open>brute_force_decode(bits, dictionary)\<close>. The module constants \<open>BEAM_WIDTH\<close>,
  \<open>MAX_WORD_LEN\<close> and \<open>MAX_RESULTS\<close> that the source reads are the fields of \<open>cfg\<close>;
  the program runs with \<open>module_config\<close>.
\<close>

definition brute_force_decode :: "config \<Rightarrow> string \<Rightarrow> string set \<Rightarrow> error + result list" where
  "brute_force_decode cfg bits dictionary =
     (case decode_loop cfg bits dictionary [(0, [], [], 0)] Map.empty [] of
        Inl e \<Rightarrow> Inl e
      | Inr results \<Rightarrow> Inr (take (max_results cfg) (sort_key (\<lambda>x. - snd x) results)))"

text \<open>
  A ghost of the loop, for stating properties of a run: the size of \<open>next_states\<close> before
  pruning, generation by generation (a generation that raises ends the list). Its length is
  the number of iterations of the \<open>while\<close> loop.
\<close>

function frontier_sizes ::
  "config \<Rightarrow> string \<Rightarrow> string set \<Rightarrow> state list \<Rightarrow> memo \<Rightarrow> result list \<Rightarrow> nat list" where
  "frontier_sizes cfg bits dictionary states visited results =
     (if states = [] then []
      else
        (case for_states cfg bits dictionary states (visited, results, []) of
           Inl e \<Rightarrow> [0]
         | Inr (visited', results', next_states) \<Rightarrow>
             length next_states #
             frontier_sizes cfg bits dictionary (prune cfg next_states) visited' results'))"
  by pat_completeness auto

definition generations :: "config \<Rightarrow> string \<Rightarrow> string set \<Rightarrow> nat list" where
  "generations cfg bits dictionary =
     frontier_sizes cfg bits dictionary [(0, [], [], 0)] Map.empty []"

text \<open>The score of the first entry of a ranked list, if there is one.\<close>

fun top_score :: "result list \<Rightarrow> rat option" where
  "top_score [] = None"
| "top_score (r # rs) = Some (snd r)"

subsection \<open>Polarity handling\<close>

text \<open>\<open>bitstream.translate(str.maketrans("10", "01"))\<close> and \<open>str.replace\<close> on one character.\<close>

definition swap_bits :: "string \<Rightarrow> string" where
  "swap_bits bitstream =
     map (\<lambda>c. if c = CHR ''1'' then CHR ''0'' else if c = CHR ''0'' then CHR ''1'' else c)
       bitstream"

definition replace_char :: "char \<Rightarrow> char \<Rightarrow> string \<Rightarrow> string" where
  "replace_char old new s = map (\<lambda>c. if c = old then new else c) s"

definition decode_with_polarity ::
  "config \<Rightarrow> string \<Rightarrow> string set \<Rightarrow> bool \<Rightarrow> error + result list" where
  "decode_with_polarity cfg bitstream dictionary invert =
     (let bits = (if invert then swap_bits bitstream else bitstream);
          bits = replace_char CHR ''0'' CHR ''-'' (replace_char CHR ''1'' CHR ''.'' bits)
      in brute_force_decode cfg bits dictionary)"

subsection \<open>Main: merging the two polarity runs\<close>

text \<open>
  \<open>best\<close> is a Python dictionary from text to score, kept in insertion order;
  \<open>keep_best\<close> is the body of \<open>for text, score in all_results\<close>.
\<close>

definition keep_best :: "result list \<Rightarrow> result \<Rightarrow> result list" where
  "keep_best best r =
     (case r of (text, score) \<Rightarrow>
        (case map_of best text of
           None \<Rightarrow> dict_set best text score
         | Some old \<Rightarrow> if old < score then dict_set best text score else best))"

fun dedupe :: "result list \<Rightarrow> result list \<Rightarrow> result list" where
  "dedupe [] best = best"
| "dedupe (r # all_results) best = dedupe all_results (keep_best best r)"

definition rank_results :: "config \<Rightarrow> result list \<Rightarrow> result list" where
  "rank_results cfg all_results =
     take (max_results cfg) (sort_key (\<lambda>x. - snd x) (dedupe all_results []))"

text \<open>
  The computation of \<open>main\<close>, as a function of the bitstream and the loaded dictionary
  (reading the dictionary file and printing are left out).
\<close>

definition main_ranked :: "config \<Rightarrow> string \<Rightarrow> string set \<Rightarrow> error + result list" where
  "main_ranked cfg bitstream dictionary =
     (case decode_with_polarity cfg bitstream dictionary False of
        Inl e \<Rightarrow> Inl e
      | Inr normal \<Rightarrow>
          if ENABLE_REVERSE_POLARITY then
            (case decode_with_polarity cfg bitstream dictionary True of
               Inl e \<Rightarrow> Inl e
             | Inr reversed \<Rightarrow> Inr (rank_results cfg (normal @ reversed)))
          else Inr (rank_results cfg normal))"

subsection \<open>Predicates for stating properties\<close>

text \<open>
  A trie as \<open>build_morse_trie\<close> makes it from codes without \<open>$\<close>: under the key \<open>$\<close> a
  letter, under any other key a dictionary of the same kind.
\<close>

fun well_formed :: "pyval \<Rightarrow> bool" where
  "well_formed (Str v) = False"
| "well_formed (Dict es) =
     list_all (\<lambda>e. if fst e = CHR ''$'' then (case snd e of Str v \<Rightarrow> True | Dict d \<Rightarrow> False)
                    else well_formed (snd e)) es"

text \<open>A sentence of committed words: each word is non-empty and in the dictionary.\<close>

definition committed :: "string set \<Rightarrow> string list \<Rightarrow> bool" where
  "committed dictionary ws = list_all (\<lambda>w. w \<noteq> [] \<and> w \<in> dictionary) ws"

definition sentence_ok :: "string set \<Rightarrow> state \<Rightarrow> bool" where
  "sentence_ok dictionary s = committed dictionary (fst (snd (snd s)))"

text \<open>A result whose text is a non-empty sentence of committed words.\<close>

definition result_ok :: "string set \<Rightarrow> result \<Rightarrow> bool" where
  "result_ok dictionary r =
     (\<exists>ws. ws \<noteq> [] \<and> committed dictionary ws \<and> fst r = join_words ws)"

text \<open>
  A successor state either is further along the bits, or is at the same position with an
  empty current word where its parent had a non-empty one.
\<close>

definition successor_of :: "state \<Rightarrow> state \<Rightarrow> bool" where
  "successor_of st s =
     (fst st < fst s \<or> (fst s = fst st \<and> fst (snd s) = [] \<and> fst (snd st) \<noteq> []))"

text \<open>Descending by score, as \<open>sorted(..., key=lambda x: -x[1])\<close> leaves a list.\<close>

definition descending :: "result list \<Rightarrow> bool" where
  "descending rs = sorted_wrt (\<lambda>a b. snd a \<ge> snd b) rs"

subsection \<open>The search tree without memo table and beam\<close>

text \<open>
  What a state does when it is expanded depends only on its memo key
  \<open>(pos, current_word)\<close>: the sentence is carried along, and every score is the score of
  the state plus an increment. \<open>letter_steps\<close> reads the keys and increments of the letter
  extensions off the trie walk of the state \<open>(pos, word, (), 0.0)\<close>; \<open>onestep\<close> adds the
  word boundary. \<open>reroot\<close> moves a successor of that state under another sentence and
  score.
\<close>

definition state_key :: "state \<Rightarrow> nat \<times> string" where
  "state_key s = (fst s, fst (snd s))"

definition reroot :: "string list \<Rightarrow> rat \<Rightarrow> state \<Rightarrow> state" where
  "reroot sentence d t = (fst t, fst (snd t), sentence, state_score t + d)"

definition letter_steps ::
  "config \<Rightarrow> string \<Rightarrow> nat \<times> string \<Rightarrow> ((nat \<times> string) \<times> rat) list" where
  "letter_steps cfg bits k =
     (case trie_walk cfg bits (snd k) [] 0 MORSE_TRIE (fst k) [] of
        Inl e \<Rightarrow> []
      | Inr ts \<Rightarrow> map (\<lambda>t. (state_key t, state_score t)) ts)"

definition onestep ::
  "config \<Rightarrow> string \<Rightarrow> string set \<Rightarrow> nat \<times> string \<Rightarrow> nat \<times> string \<Rightarrow> rat \<Rightarrow> bool" where
  "onestep cfg bits dictionary k k' d \<longleftrightarrow>
     fst k \<noteq> length bits \<and>
     ((k', d) \<in> set (letter_steps cfg bits k) \<or>
      (snd k \<noteq> [] \<and> snd k \<in> dictionary \<and> k' = (fst k, []) \<and>
       d = score_word (snd k) dictionary - 2/10))"

text \<open>
  \<open>completes m k d\<close>: from the key \<open>k\<close>, \<open>m\<close> steps followed by the finalization at the
  end of the bits add \<open>d\<close> to the score. The scores \<open>d\<close> with \<open>completes m (0, "") d\<close>
  are the scores of all the sentences the bits can be read as.
\<close>

inductive completes ::
  "config \<Rightarrow> string \<Rightarrow> string set \<Rightarrow> nat \<Rightarrow> nat \<times> string \<Rightarrow> rat \<Rightarrow> bool"
  for cfg bits dictionary where
  finish: "w \<noteq> [] \<Longrightarrow> w \<in> dictionary \<Longrightarrow>
           completes cfg bits dictionary 0 (length bits, w) (score_word w dictionary)"
| step: "onestep cfg bits dictionary k k' d1 \<Longrightarrow> completes cfg bits dictionary m k' d \<Longrightarrow>
         completes cfg bits dictionary (Suc m) k (d1 + d)"

definition decoding :: "config \<Rightarrow> string \<Rightarrow> string set \<Rightarrow> rat \<Rightarrow> bool" where
  "decoding cfg bits dictionary x \<longleftrightarrow> (\<exists>m. completes cfg bits dictionary m (0, []) x)"

text \<open>A state on a path of the tree: each of its completions is a decoding of the bits.\<close>

definition on_path :: "config \<Rightarrow> string \<Rightarrow> string set \<Rightarrow> state \<Rightarrow> bool" where
  "on_path cfg bits dictionary s \<longleftrightarrow>
     (\<forall>m d. completes cfg bits dictionary m (state_key s) d \<longrightarrow>
        decoding cfg bits dictionary (state_score s + d))"

text \<open>
  \<open>effects k c res nxt\<close>: a state of key \<open>k\<close> and score \<open>c\<close> has been expanded into
  \<open>res\<close> and \<open>nxt\<close>. \<open>covers out m k c\<close>: every completion of at most \<open>m\<close> steps of a
  state of key \<open>k\<close> and score \<open>c\<close> is matched or beaten by a result of \<open>out\<close>.
\<close>

definition effects ::
  "config \<Rightarrow> string \<Rightarrow> string set \<Rightarrow> nat \<times> string \<Rightarrow> rat \<Rightarrow> result list \<Rightarrow> state list
     \<Rightarrow> bool" where
  "effects cfg bits dictionary k c res nxt \<longleftrightarrow>
     (\<forall>d. completes cfg bits dictionary 0 k d \<longrightarrow> (\<exists>r \<in> set res. snd r = c + d)) \<and>
     (\<forall>k' d. onestep cfg bits dictionary k k' d \<longrightarrow>
        (\<exists>t \<in> set nxt. state_key t = k' \<and> state_score t = c + d))"

definition covers ::
  "config \<Rightarrow> string \<Rightarrow> string set \<Rightarrow> result list \<Rightarrow> nat \<Rightarrow> nat \<times> string \<Rightarrow> rat \<Rightarrow> bool" where
  "covers cfg bits dictionary out m k c \<longleftrightarrow>
     (\<forall>m' d. m' \<le> m \<longrightarrow> completes cfg bits dictionary m' k d \<longrightarrow>
        (\<exists>r \<in> set out. c + d \<le> snd r))"

section \<open>Termination of the generational loop\<close>

text \<open>
  Every successor state is lighter than the state it comes from: a letter extension moves
  the position forward, a word boundary empties the current word at the same position. So
  the heaviest state of a generation gets lighter from one generation to the next.
\<close>

lemma trie_walk_new:
  "trie_walk cfg bits cw sent sc node i acc = Inr ns \<Longrightarrow>
   \<exists>new. ns = acc @ new \<and> (\<forall>s \<in> set new. i < fst s \<and> fst s \<le> length bits)"
proof (induction cfg bits cw sent sc node i acc rule: trie_walk.induct)
  case (1 cfg bits cur_word sentence score node i next_states)
  show ?case
  proof (cases "i < length bits \<and> py_in (bits ! i) node")
    case False
    with "1.prems" show ?thesis by (simp add: trie_walk.simps)
  next
    case True
    from True "1.prems" obtain node' where g: "py_get node (bits ! i) = Inr node'"
      by (subst (asm) trie_walk.simps) (auto split: sum.splits)
    show ?thesis
    proof (cases "py_in CHR ''$'' node' \<and> length cur_word < max_word_len cfg")
      case False
      with True g "1.prems"
      have "trie_walk cfg bits cur_word sentence score node' (Suc i) next_states = Inr ns"
        by (subst (asm) trie_walk.simps) auto
      from "1.IH"(2)[OF True g False this] show ?thesis
        by (auto intro: Suc_lessD)
    next
      case T2: True
      from True g T2 "1.prems" obtain letter where
        l: "py_get node' CHR ''$'' = Inr (Str letter)" and
        w: "trie_walk cfg bits cur_word sentence score node' (Suc i)
              (next_states @ [(Suc i, cur_word @ letter, sentence, score + score_letter letter)])
            = Inr ns"
        by (subst (asm) trie_walk.simps) (auto split: sum.splits pyval.splits)
      from "1.IH"(1)[OF True g T2 l refl w] obtain new where
        n: "ns = (next_states @ [(Suc i, cur_word @ letter, sentence, score + score_letter letter)]) @ new"
           "\<forall>s \<in> set new. Suc i < fst s \<and> fst s \<le> length bits"
        by blast
      have "ns = next_states @ ((Suc i, cur_word @ letter, sentence, score + score_letter letter) # new)"
        using n(1) by simp
      moreover have "\<forall>s \<in> set ((Suc i, cur_word @ letter, sentence, score + score_letter letter) # new).
          i < fst s \<and> fst s \<le> length bits"
        using n(2) True by auto
      ultimately show ?thesis by blast
    qed
  qed
qed

lemma process_state_new:
  assumes "process_state cfg bits dictionary st (visited, results, acc) = Inr (visited', results', ns)"
  shows "\<exists>new. ns = acc @ new \<and>
           (\<forall>s \<in> set new. state_weight (length bits) s < state_weight (length bits) st)"
proof -
  obtain pos cur_word sentence score where st: "st = (pos, cur_word, sentence, score)"
    by (cases st) auto
  show ?thesis
  proof (cases "dominated visited (pos, cur_word) score \<or> pos = length bits")
    case True
    with assms st have "ns = acc"
      by (auto simp: process_state_def Let_def split: if_splits)
    then show ?thesis by simp
  next
    case False
    with assms st obtain ns0 where
      w: "trie_walk cfg bits cur_word sentence score MORSE_TRIE pos acc = Inr ns0"
      by (auto simp: process_state_def Let_def split: if_splits sum.splits)
    from trie_walk_new[OF w] obtain new0 where
      n0: "ns0 = acc @ new0" "\<forall>s \<in> set new0. pos < fst s \<and> fst s \<le> length bits"
      by blast
    have lt: "\<forall>s \<in> set new0. state_weight (length bits) s < state_weight (length bits) st"
      using n0(2) st by (auto simp: state_weight_def)
    show ?thesis
    proof (cases "cur_word \<noteq> [] \<and> cur_word \<in> dictionary")
      case F2: False
      with False assms st w have "ns = ns0"
        by (auto simp: process_state_def Let_def split: if_splits)
      with n0 lt show ?thesis by blast
    next
      case True
      with False assms st w have
        "ns = ns0 @ [(pos, [], sentence @ [cur_word], score + score_word cur_word dictionary - 2/10)]"
        by (auto simp: process_state_def Let_def split: if_splits)
      then have "ns = acc @ (new0 @ [(pos, [], sentence @ [cur_word], score + score_word cur_word dictionary - 2/10)])"
        using n0(1) by simp
      moreover have "\<forall>s \<in> set (new0 @ [(pos, [], sentence @ [cur_word], score + score_word cur_word dictionary - 2/10)]).
          state_weight (length bits) s < state_weight (length bits) st"
        using lt True st by (auto simp: state_weight_def)
      ultimately show ?thesis by blast
    qed
  qed
qed

lemma for_states_new:
  "for_states cfg bits dictionary states (visited, results, acc) = Inr (visited', results', ns) \<Longrightarrow>
   \<exists>new. ns = acc @ new \<and>
     (\<forall>s \<in> set new. \<exists>st \<in> set states.
        state_weight (length bits) s < state_weight (length bits) st)"
proof (induction states arbitrary: visited results acc)
  case Nil
  then show ?case by simp
next
  case (Cons st states)
  from Cons.prems obtain v1 r1 a1 where
    p: "process_state cfg bits dictionary st (visited, results, acc) = Inr (v1, r1, a1)" and
    f: "for_states cfg bits dictionary states (v1, r1, a1) = Inr (visited', results', ns)"
    by (auto split: sum.splits)
  from process_state_new[OF p] obtain new1 where
    n1: "a1 = acc @ new1"
        "\<forall>s \<in> set new1. state_weight (length bits) s < state_weight (length bits) st"
    by blast
  from Cons.IH[OF f] obtain new2 where
    n2: "ns = a1 @ new2"
        "\<forall>s \<in> set new2. \<exists>st \<in> set states.
           state_weight (length bits) s < state_weight (length bits) st"
    by blast
  have "ns = acc @ (new1 @ new2)" using n1(1) n2(1) by simp
  moreover have "\<forall>s \<in> set (new1 @ new2). \<exists>st' \<in> set (st # states).
       state_weight (length bits) s < state_weight (length bits) st'"
    using n1(2) n2(2) by auto
  ultimately show ?case by blast
qed

lemma frontier_weight_le:
  "frontier_weight n states \<le> k \<longleftrightarrow> (\<forall>s \<in> set states. state_weight n s < k)"
  by (induction states) auto

lemma frontier_weight_less:
  assumes "states \<noteq> []"
    and "\<forall>s \<in> set new. \<exists>st \<in> set states. state_weight n s < state_weight n st"
  shows "frontier_weight n new < frontier_weight n states"
proof -
  have a: "\<forall>st \<in> set states. state_weight n st < frontier_weight n states"
    using frontier_weight_le[of n states "frontier_weight n states"] by simp
  from assms(1) obtain st0 where "st0 \<in> set states" by (cases states) auto
  with a have pos: "0 < frontier_weight n states" by fastforce
  have "\<forall>s \<in> set new. state_weight n s < frontier_weight n states - 1"
    using assms(2) a by fastforce
  then have "frontier_weight n new \<le> frontier_weight n states - 1"
    by (simp add: frontier_weight_le)
  with pos show ?thesis by simp
qed

lemma set_prune: "set (prune cfg ns) \<subseteq> set ns"
  unfolding prune_def using set_take_subset[of "beam_width cfg" "sort_key (\<lambda>x. - state_score x) ns"]
  by simp

lemma generation_decreases:
  assumes "states \<noteq> []"
    and "for_states cfg bits dictionary states (visited, results, []) = Inr (visited', results', ns)"
  shows "frontier_weight (length bits) (prune cfg ns) < frontier_weight (length bits) states"
proof -
  from for_states_new[OF assms(2)] have
    "\<forall>s \<in> set ns. \<exists>st \<in> set states.
        state_weight (length bits) s < state_weight (length bits) st"
    by auto
  with set_prune[of cfg ns] have
    "\<forall>s \<in> set (prune cfg ns). \<exists>st \<in> set states.
        state_weight (length bits) s < state_weight (length bits) st"
    by blast
  with assms(1) show ?thesis by (rule frontier_weight_less)
qed

termination decode_loop
  by (relation "measure (\<lambda>(cfg, bits, dictionary, states, visited, results).
                   frontier_weight (length bits) states)")
     (auto simp: generation_decreases)

termination frontier_sizes
  by (relation "measure (\<lambda>(cfg, bits, dictionary, states, visited, results).
                   frontier_weight (length bits) states)")
     (auto simp: generation_decreases)

declare decode_loop.simps [simp del]
declare frontier_sizes.simps [simp del]

section \<open>The Morse trie\<close>

lemma MORSE_TRIE_value: "MORSE_TRIE =
    Dict [(CHR ''.'', Dict [(CHR ''-'', Dict [(CHR ''$'', Str ''A''), (CHR ''-'', Dict
    [(CHR ''-'', Dict [(CHR ''$'', Str ''J'')]), (CHR ''.'', Dict [(CHR ''$'', Str
    ''P'')]), (CHR ''$'', Str ''W'')]), (CHR ''.'', Dict [(CHR ''.'', Dict [(CHR ''$'', Str
    ''L'')]), (CHR ''$'', Str ''R'')])]), (CHR ''$'', Str ''E''), (CHR ''.'', Dict [(CHR
    ''-'', Dict [(CHR ''.'', Dict [(CHR ''$'', Str ''F'')]), (CHR ''$'', Str ''U'')]), (CHR
    ''.'', Dict [(CHR ''.'', Dict [(CHR ''$'', Str ''H'')]), (CHR ''$'', Str ''S''), (CHR
    ''-'', Dict [(CHR ''$'', Str ''V'')])]), (CHR ''$'', Str ''I'')])]), (CHR ''-'', Dict
    [(CHR ''.'', Dict [(CHR ''.'', Dict [(CHR ''.'', Dict [(CHR ''$'', Str ''B'')]), (CHR
    ''$'', Str ''D''), (CHR ''-'', Dict [(CHR ''$'', Str ''X'')])]), (CHR ''-'', Dict [(CHR
    ''.'', Dict [(CHR ''$'', Str ''C'')]), (CHR ''$'', Str ''K''), (CHR ''-'', Dict [(CHR
    ''$'', Str ''Y'')])]), (CHR ''$'', Str ''N'')]), (CHR ''-'', Dict [(CHR ''.'', Dict
    [(CHR ''$'', Str ''G''), (CHR ''-'', Dict [(CHR ''$'', Str ''Q'')]), (CHR ''.'', Dict
    [(CHR ''$'', Str ''Z'')])]), (CHR ''$'', Str ''M''), (CHR ''-'', Dict [(CHR ''$'', Str
    ''O'')])]), (CHR ''$'', Str ''T'')])]"
  by (simp add: MORSE_TRIE_def build_morse_trie_def MORSE_def)

lemma build_MORSE_TRIE: "build_morse_trie MORSE = Inr MORSE_TRIE"
  by (simp add: MORSE_TRIE_def build_morse_trie_def MORSE_def)

lemma well_formed_MORSE_TRIE: "well_formed MORSE_TRIE"
  by (simp add: MORSE_TRIE_value)

lemma descend_terminals:
  "descend t code = Some node \<Longrightarrow> letter_of node = Some l \<Longrightarrow> (code, l) \<in> set (terminals t)"
proof (induction code arbitrary: t)
  case Nil
  then show ?case by (cases t) auto
next
  case (Cons s code)
  from Cons.prems(1) obtain es child where
    t: "t = Dict es" and m: "map_of es s = Some child" and d: "descend child code = Some node"
    by (cases t) (auto split: option.splits)
  from Cons.IH[OF d Cons.prems(2)] have "(code, l) \<in> set (terminals child)" .
  moreover from m have "(s, child) \<in> set es" by (rule map_of_SomeD)
  ultimately show ?case unfolding t by (force simp del: letter_of.simps)
qed

lemma terminals_MORSE_TRIE:
  "terminals MORSE_TRIE =
    [(''.'', ''E''), (''.-'', ''A''), (''.--'', ''W''), (''.---'', ''J''),
     (''.--.'', ''P''), (''.-.'', ''R''), (''.-..'', ''L''), (''..'', ''I''),
     (''..-'', ''U''), (''..-.'', ''F''), (''...'', ''S''), (''....'', ''H''),
     (''...-'', ''V''), (''-'', ''T''), (''-.'', ''N''), (''-..'', ''D''),
     (''-...'', ''B''), (''-..-'', ''X''), (''-.-'', ''K''), (''-.-.'', ''C''),
     (''-.--'', ''Y''), (''--'', ''M''), (''--.'', ''G''), (''--.-'', ''Q''),
     (''--..'', ''Z''), (''---'', ''O'')]"
  by (simp add: MORSE_TRIE_value)

lemma letter_at_MORSE: "(code, letter) \<in> set MORSE \<Longrightarrow> letter_at MORSE_TRIE code = Some letter"
  by (auto simp: MORSE_def letter_at_def MORSE_TRIE_value)

lemma terminal_in_MORSE:
  assumes "letter_at MORSE_TRIE code = Some letter"
  shows "(code, letter) \<in> set MORSE"
proof -
  from assms obtain node where "descend MORSE_TRIE code = Some node" "letter_of node = Some letter"
    by (auto simp: letter_at_def split: option.splits)
  then have "(code, letter) \<in> set (terminals MORSE_TRIE)" by (rule descend_terminals)
  then show ?thesis unfolding terminals_MORSE_TRIE MORSE_def by auto
qed

text \<open>
  Claim C7. The trie built by \<open>build_morse_trie\<close> from the table \<open>MORSE\<close> (26 entries,
  26 different codes for 26 different letters) has exactly 26 terminal nodes, at 26
  different paths; a path from the root ends in a node
  carrying a letter exactly when (path, letter) is an entry of \<open>MORSE\<close>: every letter is
  reached by its code, and no other node is terminal.
\<close>

theorem morse_trie_terminals:
  "build_morse_trie MORSE = Inr MORSE_TRIE \<and>
   length MORSE = 26 \<and>
   distinct (map fst MORSE) \<and> distinct (map snd MORSE) \<and>
   length (terminals MORSE_TRIE) = 26 \<and>
   distinct (map fst (terminals MORSE_TRIE)) \<and>
   (\<forall>code letter. letter_at MORSE_TRIE code = Some letter \<longleftrightarrow> (code, letter) \<in> set MORSE)"
proof -
  have "length MORSE = 26" by (simp add: MORSE_def)
  moreover have "distinct (map fst MORSE)" by (simp add: MORSE_def)
  moreover have "distinct (map snd MORSE)" by (simp add: MORSE_def)
  moreover have "length (terminals MORSE_TRIE) = 26" by (simp add: terminals_MORSE_TRIE)
  moreover have "distinct (map fst (terminals MORSE_TRIE))" by (simp add: terminals_MORSE_TRIE)
  moreover have "\<forall>code letter. letter_at MORSE_TRIE code = Some letter \<longleftrightarrow> (code, letter) \<in> set MORSE"
    using letter_at_MORSE terminal_in_MORSE by blast
  ultimately show ?thesis using build_MORSE_TRIE by blast
qed

theorem morse_trie_terminals_witness:
  "letter_at MORSE_TRIE ''--.-'' = Some ''Q'' \<and> letter_at MORSE_TRIE ''.-.-'' = None"
proof -
  from morse_trie_terminals have
    iff: "\<And>code letter. letter_at MORSE_TRIE code = Some letter \<longleftrightarrow> (code, letter) \<in> set MORSE"
    by blast
  have "letter_at MORSE_TRIE ''--.-'' = Some ''Q''"
    unfolding iff by (simp add: MORSE_def)
  moreover have "letter_at MORSE_TRIE ''.-.-'' \<noteq> Some letter" for letter
    unfolding iff by (simp add: MORSE_def)
  ultimately show ?thesis by auto
qed

section \<open>Scoring\<close>

lemma add_letters_sum: "add_letters word score = score + sum_list (map (\<lambda>c. score_letter [c]) word)"
  by (induction word arbitrary: score) auto

text \<open>
  Claim C6. \<open>score_word\<close> is the sum of \<open>score_letter\<close> over the characters of the word,
  plus 5 exactly when the word is in the dictionary, minus 2 exactly when it is longer than
  12; \<open>score_letter\<close> gives the tabulated weight for the eleven letters E, T, A, O, N, R, I,
  S, H, L, D and 0.25 for any other string.
\<close>

theorem score_word_spec:
  "score_word word dictionary =
     sum_list (map (\<lambda>c. score_letter [c]) word)
       + (if word \<in> dictionary then 5 else 0)
       - (if length word > 12 then 2 else 0) \<and>
   score_letter ''E'' = 1 \<and> score_letter ''T'' = 9/10 \<and> score_letter ''A'' = 85/100 \<and>
   score_letter ''O'' = 85/100 \<and> score_letter ''N'' = 8/10 \<and> score_letter ''R'' = 8/10 \<and>
   score_letter ''I'' = 75/100 \<and> score_letter ''S'' = 75/100 \<and> score_letter ''H'' = 7/10 \<and>
   score_letter ''L'' = 7/10 \<and> score_letter ''D'' = 65/100 \<and>
   (c \<notin> {''E'', ''T'', ''A'', ''O'', ''N'', ''R'', ''I'', ''S'', ''H'', ''L'', ''D''}
      \<longrightarrow> score_letter c = 25/100)"
  by (simp add: score_word_def add_letters_sum score_letter_def LETTER_FREQ_def)

theorem score_word_spec_witness:
  "score_word ''THIRTEENTEENS'' {''HI''} = 113/10 - 2 \<and> score_letter ''Q'' = 25/100 \<and>
   score_word ''HI'' {''HI''} = 7/10 + 75/100 + 5"
  using score_word_spec [of "''THIRTEENTEENS''" "{''HI''}" "''Q''"]
        score_word_spec [of "''HI''" "{''HI''}" "''Q''"]
  by simp

section \<open>Decoding a sequence without the terminal marker does not raise\<close>

lemma well_formed_child:
  assumes "well_formed node" "c \<noteq> CHR ''$''" "py_in c node"
  shows "\<exists>node'. py_get node c = Inr node' \<and> well_formed node'"
proof -
  from assms(1) obtain es where n: "node = Dict es" by (cases node) auto
  from assms(3) n obtain child where m: "map_of es c = Some child" by auto
  then have "(c, child) \<in> set es" by (rule map_of_SomeD)
  with assms(1,2) n have "well_formed child" by (auto simp: list_all_iff)
  with m n show ?thesis by simp
qed

lemma well_formed_letter:
  assumes "well_formed node" "py_in CHR ''$'' node"
  shows "\<exists>letter. py_get node CHR ''$'' = Inr (Str letter)"
proof -
  from assms(1) obtain es where n: "node = Dict es" by (cases node) auto
  from assms(2) n obtain v where m: "map_of es CHR ''$'' = Some v" by auto
  then have "(CHR ''$'', v) \<in> set es" by (rule map_of_SomeD)
  with assms(1) n obtain letter where "v = Str letter"
    by (cases v) (auto simp: list_all_iff)
  with m n show ?thesis by simp
qed

lemma trie_walk_ok:
  "well_formed node \<Longrightarrow> CHR ''$'' \<notin> set bits \<Longrightarrow>
   \<exists>ns. trie_walk cfg bits cw sent sc node i acc = Inr ns"
proof (induction cfg bits cw sent sc node i acc rule: trie_walk.induct)
  case (1 cfg bits cur_word sentence score node i next_states)
  show ?case
  proof (cases "i < length bits \<and> py_in (bits ! i) node")
    case False
    then show ?thesis by (subst trie_walk.simps) auto
  next
    case True
    then have "bits ! i \<in> set bits" by simp
    with "1.prems"(2) have ne: "bits ! i \<noteq> CHR ''$''" by metis
    from well_formed_child[OF "1.prems"(1) ne] True obtain node' where
      g: "py_get node (bits ! i) = Inr node'" and wf: "well_formed node'" by blast
    show ?thesis
    proof (cases "py_in CHR ''$'' node' \<and> length cur_word < max_word_len cfg")
      case False
      from "1.IH"(2)[OF True g False wf "1.prems"(2)] True g False show ?thesis
        by (subst trie_walk.simps) auto
    next
      case T2: True
      from well_formed_letter[OF wf] T2 obtain letter where
        l: "py_get node' CHR ''$'' = Inr (Str letter)" by blast
      from "1.IH"(1)[OF True g T2 l refl wf "1.prems"(2)] True g T2 l show ?thesis
        by (subst trie_walk.simps) auto
    qed
  qed
qed

lemma process_state_ok:
  assumes "CHR ''$'' \<notin> set bits"
  shows "\<exists>acc'. process_state cfg bits dictionary st acc = Inr acc'"
proof -
  obtain pos cur_word sentence score where st: "st = (pos, cur_word, sentence, score)"
    by (cases st) auto
  obtain visited results next_states where acc: "acc = (visited, results, next_states)"
    by (metis prod_cases3)
  from trie_walk_ok[OF well_formed_MORSE_TRIE assms] obtain ns where
    "trie_walk cfg bits cur_word sentence score MORSE_TRIE pos next_states = Inr ns" by blast
  then show ?thesis by (simp add: process_state_def st acc Let_def)
qed

lemma for_states_ok:
  "CHR ''$'' \<notin> set bits \<Longrightarrow> \<exists>acc'. for_states cfg bits dictionary states acc = Inr acc'"
proof (induction states arbitrary: acc)
  case Nil
  show ?case by (rule exI[of _ acc]) simp
next
  case (Cons st states)
  from process_state_ok[OF Cons.prems] obtain acc1 where
    "process_state cfg bits dictionary st acc = Inr acc1" by blast
  with Cons.IH[OF Cons.prems, of acc1] show ?case by simp
qed

lemma decode_loop_ok:
  "CHR ''$'' \<notin> set bits \<Longrightarrow> \<exists>rs. decode_loop cfg bits dictionary states visited results = Inr rs"
proof (induction cfg bits dictionary states visited results rule: decode_loop.induct)
  case (1 cfg bits dictionary states visited results)
  show ?case
  proof (cases "states = []")
    case True
    then show ?thesis by (simp add: decode_loop.simps)
  next
    case False
    from for_states_ok[OF "1.prems"] obtain v' r' ns where
      f: "for_states cfg bits dictionary states (visited, results, []) = Inr (v', r', ns)"
      by (metis prod_cases3)
    from "1.IH"[OF False f refl refl "1.prems"] False f show ?thesis
      by (subst decode_loop.simps) simp
  qed
qed

lemma brute_force_decode_ok:
  assumes "CHR ''$'' \<notin> set bits"
  shows "\<exists>rs. brute_force_decode cfg bits dictionary = Inr rs"
  using decode_loop_ok[OF assms, of cfg dictionary "[(0, [], [], 0)]" Map.empty "[]"]
  by (auto simp: brute_force_decode_def)

section \<open>Shape of the returned list\<close>

lemma descending_sort: "descending (sort_key (\<lambda>x. - snd x) rs)"
proof -
  have "sorted (map (\<lambda>x. - snd x) (sort_key (\<lambda>x. - snd x) rs))" by (rule sorted_sort_key)
  then show ?thesis by (simp add: descending_def sorted_map)
qed

lemma descending_take: "descending rs \<Longrightarrow> descending (take n rs)"
  unfolding descending_def by (rule sorted_wrt_take)

lemma brute_force_decode_shape:
  assumes "brute_force_decode cfg bits dictionary = Inr rs"
  shows "length rs \<le> max_results cfg \<and> descending rs"
proof -
  from assms obtain results where
    "rs = take (max_results cfg) (sort_key (\<lambda>x. - snd x) results)"
    by (auto simp: brute_force_decode_def split: sum.splits)
  then show ?thesis by (simp add: descending_take descending_sort)
qed

section \<open>Number of generations\<close>

lemma frontier_sizes_bound:
  "length (frontier_sizes cfg bits dictionary states visited results)
     \<le> frontier_weight (length bits) states"
proof (induction cfg bits dictionary states visited results rule: frontier_sizes.induct)
  case (1 cfg bits dictionary states visited results)
  show ?case
  proof (cases "states = []")
    case True
    then show ?thesis by (simp add: frontier_sizes.simps)
  next
    case False
    then have pos: "0 < frontier_weight (length bits) states" by (cases states) auto
    show ?thesis
    proof (cases "for_states cfg bits dictionary states (visited, results, [])")
      case (Inl e)
      with False pos show ?thesis by (subst frontier_sizes.simps) simp
    next
      case (Inr acc')
      obtain v' r' ns where acc': "acc' = (v', r', ns)" by (cases acc') auto
      from Inr acc' have f:
        "for_states cfg bits dictionary states (visited, results, []) = Inr (v', r', ns)" by simp
      from generation_decreases[OF False f] "1.IH"[OF False f refl refl] False f
      show ?thesis by (subst frontier_sizes.simps) simp
    qed
  qed
qed

lemma process_state_successor:
  assumes "process_state cfg bits dictionary st (visited, results, acc) = Inr (visited', results', ns)"
  shows "\<exists>new. ns = acc @ new \<and> (\<forall>s \<in> set new. successor_of st s)"
proof -
  obtain pos cur_word sentence score where st: "st = (pos, cur_word, sentence, score)"
    by (cases st) auto
  show ?thesis
  proof (cases "dominated visited (pos, cur_word) score \<or> pos = length bits")
    case True
    with assms st have "ns = acc"
      by (auto simp: process_state_def Let_def split: if_splits)
    then show ?thesis by simp
  next
    case False
    with assms st obtain ns0 where
      w: "trie_walk cfg bits cur_word sentence score MORSE_TRIE pos acc = Inr ns0"
      by (auto simp: process_state_def Let_def split: if_splits sum.splits)
    from trie_walk_new[OF w] obtain new0 where
      n0: "ns0 = acc @ new0" "\<forall>s \<in> set new0. pos < fst s \<and> fst s \<le> length bits"
      by blast
    have adv: "\<forall>s \<in> set new0. successor_of st s"
      using n0(2) st by (auto simp: successor_of_def)
    show ?thesis
    proof (cases "cur_word \<noteq> [] \<and> cur_word \<in> dictionary")
      case F2: False
      with False assms st w have "ns = ns0"
        by (auto simp: process_state_def Let_def split: if_splits)
      with n0 adv show ?thesis by blast
    next
      case True
      with False assms st w have
        "ns = ns0 @ [(pos, [], sentence @ [cur_word], score + score_word cur_word dictionary - 2/10)]"
        by (auto simp: process_state_def Let_def split: if_splits)
      then have "ns = acc @ (new0 @ [(pos, [], sentence @ [cur_word], score + score_word cur_word dictionary - 2/10)])"
        using n0(1) by simp
      moreover have "\<forall>s \<in> set (new0 @ [(pos, [], sentence @ [cur_word], score + score_word cur_word dictionary - 2/10)]).
          successor_of st s"
        using adv True st by (auto simp: successor_of_def)
      ultimately show ?thesis by blast
    qed
  qed
qed

lemma for_states_successor:
  "for_states cfg bits dictionary states (visited, results, acc) = Inr (visited', results', ns) \<Longrightarrow>
   \<exists>new. ns = acc @ new \<and> (\<forall>s \<in> set new. \<exists>st \<in> set states. successor_of st s)"
proof (induction states arbitrary: visited results acc)
  case Nil
  then show ?case by simp
next
  case (Cons st states)
  from Cons.prems obtain v1 r1 a1 where
    p: "process_state cfg bits dictionary st (visited, results, acc) = Inr (v1, r1, a1)" and
    f: "for_states cfg bits dictionary states (v1, r1, a1) = Inr (visited', results', ns)"
    by (auto split: sum.splits)
  from process_state_successor[OF p] obtain new1 where
    n1: "a1 = acc @ new1" "\<forall>s \<in> set new1. successor_of st s"
    by blast
  from Cons.IH[OF f] obtain new2 where
    n2: "ns = a1 @ new2" "\<forall>s \<in> set new2. \<exists>st \<in> set states. successor_of st s"
    by blast
  have "ns = acc @ (new1 @ new2)" using n1(1) n2(1) by simp
  moreover have "\<forall>s \<in> set (new1 @ new2). \<exists>st' \<in> set (st # states). successor_of st' s"
    using n1(2) n2(2) by auto
  ultimately show ?case by blast
qed

section \<open>Every word of a result is a dictionary word\<close>

lemma trie_walk_sentence_ok:
  "trie_walk cfg bits cw sent sc node i acc = Inr ns \<Longrightarrow> committed d sent \<Longrightarrow>
   list_all (sentence_ok d) acc \<Longrightarrow> list_all (sentence_ok d) ns"
proof (induction cfg bits cw sent sc node i acc rule: trie_walk.induct)
  case (1 cfg bits cur_word sentence score node i next_states)
  show ?case
  proof (cases "i < length bits \<and> py_in (bits ! i) node")
    case False
    with "1.prems" show ?thesis by (subst (asm) trie_walk.simps) auto
  next
    case True
    from True "1.prems"(1) obtain node' where g: "py_get node (bits ! i) = Inr node'"
      by (subst (asm) trie_walk.simps) (auto split: sum.splits)
    show ?thesis
    proof (cases "py_in CHR ''$'' node' \<and> length cur_word < max_word_len cfg")
      case False
      with True g "1.prems"(1)
      have "trie_walk cfg bits cur_word sentence score node' (Suc i) next_states = Inr ns"
        by (subst (asm) trie_walk.simps) auto
      from "1.IH"(2)[OF True g False this "1.prems"(2,3)] show ?thesis .
    next
      case T2: True
      from True g T2 "1.prems"(1) obtain letter where
        l: "py_get node' CHR ''$'' = Inr (Str letter)" and
        w: "trie_walk cfg bits cur_word sentence score node' (Suc i)
              (next_states @ [(Suc i, cur_word @ letter, sentence, score + score_letter letter)])
            = Inr ns"
        by (subst (asm) trie_walk.simps) (auto split: sum.splits pyval.splits)
      have "list_all (sentence_ok d)
              (next_states @ [(Suc i, cur_word @ letter, sentence, score + score_letter letter)])"
        using "1.prems"(2,3) by (auto simp: sentence_ok_def list_all_iff)
      from "1.IH"(1)[OF True g T2 l refl w "1.prems"(2) this] show ?thesis .
    qed
  qed
qed

lemma committed_snoc:
  "committed d ws \<Longrightarrow> w \<noteq> [] \<Longrightarrow> w \<in> d \<Longrightarrow> committed d (ws @ [w])"
  by (simp add: committed_def)

lemma process_state_ok_words:
  assumes "process_state cfg bits d st (visited, results, acc) = Inr (visited', results', ns)"
    and "sentence_ok d st" "list_all (result_ok d) results" "list_all (sentence_ok d) acc"
  shows "list_all (result_ok d) results' \<and> list_all (sentence_ok d) ns"
proof -
  obtain pos cur_word sentence score where st: "st = (pos, cur_word, sentence, score)"
    by (cases st) auto
  from assms(2) st have c: "committed d sentence" by (simp add: sentence_ok_def)
  show ?thesis
  proof (cases "dominated visited (pos, cur_word) score")
    case True
    with assms st show ?thesis by (simp add: process_state_def)
  next
    case nd: False
    show ?thesis
    proof (cases "pos = length bits")
      case True
      show ?thesis
      proof (cases "cur_word \<noteq> [] \<and> cur_word \<in> d")
        case False
        with nd True assms st show ?thesis by (auto simp: process_state_def Let_def)
      next
        case w: True
        with nd True assms(1) st have eq:
          "results' = results @ [(join_words (sentence @ [cur_word]), score + score_word cur_word d)]"
          "ns = acc"
          by (auto simp: process_state_def Let_def)
        have "result_ok d (join_words (sentence @ [cur_word]), score + score_word cur_word d)"
          unfolding result_ok_def using committed_snoc[OF c] w
          by (intro exI[of _ "sentence @ [cur_word]"]) simp
        with eq assms(3,4) show ?thesis by simp
      qed
    next
      case False
      with nd assms(1) st obtain ns0 where
        w: "trie_walk cfg bits cur_word sentence score MORSE_TRIE pos acc = Inr ns0"
        by (auto simp: process_state_def Let_def split: sum.splits)
      from trie_walk_sentence_ok[OF w c assms(4)] have ok0: "list_all (sentence_ok d) ns0" .
      show ?thesis
      proof (cases "cur_word \<noteq> [] \<and> cur_word \<in> d")
        case F2: False
        with nd False assms(1) st w have "results' = results" "ns = ns0"
          by (auto simp: process_state_def Let_def)
        with ok0 assms(3) show ?thesis by simp
      next
        case True
        with nd False assms(1) st w have eq: "results' = results"
          "ns = ns0 @ [(pos, [], sentence @ [cur_word], score + score_word cur_word d - 2/10)]"
          by (auto simp: process_state_def Let_def)
        have "sentence_ok d (pos, [], sentence @ [cur_word], score + score_word cur_word d - 2/10)"
          using committed_snoc[OF c] True by (simp add: sentence_ok_def)
        with eq ok0 assms(3) show ?thesis by simp
      qed
    qed
  qed
qed

lemma for_states_ok_words:
  "for_states cfg bits d states (visited, results, acc) = Inr (visited', results', ns) \<Longrightarrow>
   list_all (sentence_ok d) states \<Longrightarrow> list_all (result_ok d) results \<Longrightarrow>
   list_all (sentence_ok d) acc \<Longrightarrow>
   list_all (result_ok d) results' \<and> list_all (sentence_ok d) ns"
proof (induction states arbitrary: visited results acc)
  case Nil
  then show ?case by simp
next
  case (Cons st states)
  from Cons.prems(1) obtain v1 r1 a1 where
    p: "process_state cfg bits d st (visited, results, acc) = Inr (v1, r1, a1)" and
    f: "for_states cfg bits d states (v1, r1, a1) = Inr (visited', results', ns)"
    by (auto split: sum.splits)
  from process_state_ok_words[OF p] Cons.prems(2,3,4)
  have "list_all (result_ok d) r1" "list_all (sentence_ok d) a1" by simp_all
  from Cons.IH[OF f _ this] Cons.prems(2) show ?case by simp
qed

lemma prune_sentence_ok: "list_all (sentence_ok d) ns \<Longrightarrow> list_all (sentence_ok d) (prune cfg ns)"
  using set_prune[of cfg ns] by (auto simp: list_all_iff)

lemma decode_loop_ok_words:
  "decode_loop cfg bits d states visited results = Inr rs \<Longrightarrow>
   list_all (sentence_ok d) states \<Longrightarrow> list_all (result_ok d) results \<Longrightarrow>
   list_all (result_ok d) rs"
proof (induction cfg bits d states visited results rule: decode_loop.induct)
  case (1 cfg bits dictionary states visited results)
  show ?case
  proof (cases "states = []")
    case True
    with "1.prems" show ?thesis by (subst (asm) decode_loop.simps) simp
  next
    case False
    with "1.prems"(1) obtain v' r' ns where
      f: "for_states cfg bits dictionary states (visited, results, []) = Inr (v', r', ns)" and
      l: "decode_loop cfg bits dictionary (prune cfg ns) v' r' = Inr rs"
      by (subst (asm) decode_loop.simps) (auto split: sum.splits)
    from for_states_ok_words[OF f "1.prems"(2,3)]
    have "list_all (result_ok dictionary) r'" "list_all (sentence_ok dictionary) ns" by simp_all
    from "1.IH"[OF False f refl refl l prune_sentence_ok[OF this(2)] this(1)] show ?thesis .
  qed
qed

lemma brute_force_decode_ok_words:
  assumes "brute_force_decode cfg bits d = Inr rs"
  shows "list_all (result_ok d) rs"
proof -
  from assms obtain results where
    l: "decode_loop cfg bits d [(0, [], [], 0)] Map.empty [] = Inr results" and
    rs: "rs = take (max_results cfg) (sort_key (\<lambda>x. - snd x) results)"
    by (auto simp: brute_force_decode_def split: sum.splits)
  have "list_all (result_ok d) results"
    by (rule decode_loop_ok_words[OF l]) (simp_all add: sentence_ok_def committed_def)
  moreover have "set rs \<subseteq> set results"
    unfolding rs using set_take_subset[of "max_results cfg" "sort_key (\<lambda>x. - snd x) results"]
    by simp
  ultimately show ?thesis by (auto simp: list_all_iff)
qed

lemma join_words_nonempty:
  "ws \<noteq> [] \<Longrightarrow> committed d ws \<Longrightarrow> join_words ws \<noteq> []"
  by (induction ws rule: join_words.induct) (auto simp: committed_def)

section \<open>A beam that does not cut\<close>

text \<open>The expansion of a state reads the configuration only through \<open>MAX_WORD_LEN\<close>.\<close>

lemma trie_walk_cfg:
  "max_word_len c' = max_word_len c \<Longrightarrow>
   trie_walk c' bits cw sent sc node i acc = trie_walk c bits cw sent sc node i acc"
proof (induction c bits cw sent sc node i acc rule: trie_walk.induct)
  case (1 cfg bits cur_word sentence score node i next_states)
  show ?case
  proof (cases "i < length bits \<and> py_in (bits ! i) node")
    case False
    then show ?thesis
      by (auto simp: trie_walk.simps[of c' bits cur_word sentence score node i]
                     trie_walk.simps[of cfg bits cur_word sentence score node i])
  next
    case True
    show ?thesis
    proof (cases "py_get node (bits ! i)")
      case (Inl e)
      with True show ?thesis
        by (simp add: trie_walk.simps[of c' bits cur_word sentence score node i]
                      trie_walk.simps[of cfg bits cur_word sentence score node i])
    next
      case (Inr node')
      show ?thesis
      proof (cases "py_in CHR ''$'' node' \<and> length cur_word < max_word_len cfg")
        case False
        from "1.IH"(2)[OF True Inr False "1.prems"] True Inr False "1.prems" show ?thesis
          by (auto simp: trie_walk.simps[of c' bits cur_word sentence score node i]
                         trie_walk.simps[of cfg bits cur_word sentence score node i])
      next
        case T2: True
        show ?thesis
        proof (cases "py_get node' CHR ''$''")
          case Inl2: (Inl e)
          with True Inr T2 "1.prems" show ?thesis
            by (simp add: trie_walk.simps[of c' bits cur_word sentence score node i]
                          trie_walk.simps[of cfg bits cur_word sentence score node i])
        next
          case Inr2: (Inr v)
          show ?thesis
          proof (cases v)
            case (Dict es)
            with True Inr T2 Inr2 "1.prems" show ?thesis
              by (simp add: trie_walk.simps[of c' bits cur_word sentence score node i]
                            trie_walk.simps[of cfg bits cur_word sentence score node i])
          next
            case (Str letter)
            from "1.IH"(1)[OF True Inr T2 Inr2 Str "1.prems"] True Inr T2 Inr2 Str "1.prems"
            show ?thesis
              by (simp add: trie_walk.simps[of c' bits cur_word sentence score node i]
                            trie_walk.simps[of cfg bits cur_word sentence score node i])
          qed
        qed
      qed
    qed
  qed
qed

lemma process_state_cfg:
  assumes "max_word_len c' = max_word_len c"
  shows "process_state c' bits d st acc = process_state c bits d st acc"
  unfolding process_state_def trie_walk_cfg[OF assms] by (rule refl)

text \<open>
  The walk of a state is the walk of the state \<open>(pos, word, (), 0.0)\<close> with the same
  key, moved under the sentence and the score of the state: what an expanded state adds to
  \<open>results\<close> and \<open>next_states\<close> is given by \<open>completes 0\<close> and \<open>onestep\<close> at its key.
\<close>

lemma completes_0:
  "completes cfg bits dictionary 0 k d \<longleftrightarrow>
     (\<exists>w. k = (length bits, w) \<and> w \<noteq> [] \<and> w \<in> dictionary \<and> d = score_word w dictionary)"
  by (subst completes.simps) auto

lemma completes_Suc:
  "completes cfg bits dictionary (Suc m) k d \<longleftrightarrow>
     (\<exists>k' d1 d2. onestep cfg bits dictionary k k' d1 \<and> completes cfg bits dictionary m k' d2 \<and>
        d = d1 + d2)"
  by (subst completes.simps) auto

lemma state_key_reroot [simp]: "state_key (reroot sentence d t) = state_key t"
  by (simp add: state_key_def reroot_def)

lemma state_score_reroot [simp]: "state_score (reroot sentence d t) = state_score t + d"
  by (simp add: state_score_def reroot_def)

lemma trie_walk_shift:
  "trie_walk cfg bits cw sent' sc' node i acc' =
     (case trie_walk cfg bits cw sent sc node i acc of
        Inl e \<Rightarrow> Inl e
      | Inr ts \<Rightarrow> Inr (acc' @ map (reroot sent' (sc' - sc)) (drop (length acc) ts)))"
proof (induction cfg bits cw sent sc node i acc arbitrary: acc' rule: trie_walk.induct)
  case (1 cfg bits cur_word sentence score node i next_states)
  note L = trie_walk.simps[of cfg bits cur_word sent' sc' node i acc']
  note R = trie_walk.simps[of cfg bits cur_word sentence score node i next_states]
  show ?case
  proof (cases "i < length bits \<and> py_in (bits ! i) node")
    case False
    then show ?thesis by (auto simp: L R)
  next
    case True
    show ?thesis
    proof (cases "py_get node (bits ! i)")
      case (Inl e)
      with True show ?thesis by (simp add: L R)
    next
      case (Inr node')
      show ?thesis
      proof (cases "py_in CHR ''$'' node' \<and> length cur_word < max_word_len cfg")
        case False
        from "1.IH"(2)[OF True Inr False, of acc'] True Inr False show ?thesis
          by (auto simp: L R)
      next
        case T2: True
        show ?thesis
        proof (cases "py_get node' CHR ''$''")
          case Inl2: (Inl e)
          with True Inr T2 show ?thesis by (simp add: L R)
        next
          case Inr2: (Inr v)
          show ?thesis
          proof (cases v)
            case (Dict es)
            with True Inr T2 Inr2 show ?thesis by (simp add: L R)
          next
            case (Str letter)
            let ?new = "(Suc i, cur_word @ letter, sentence, score + score_letter letter)"
            let ?new' = "(Suc i, cur_word @ letter, sent', sc' + score_letter letter)"
            have ih: "trie_walk cfg bits cur_word sent' sc' node' (Suc i) (acc' @ [?new']) =
              (case trie_walk cfg bits cur_word sentence score node' (Suc i) (next_states @ [?new]) of
                 Inl e \<Rightarrow> Inl e
               | Inr ts \<Rightarrow> Inr ((acc' @ [?new']) @ map (reroot sent' (sc' - score))
                                  (drop (length (next_states @ [?new])) ts)))"
              by (rule "1.IH"(1)[OF True Inr T2 Inr2 Str])
            have l: "trie_walk cfg bits cur_word sent' sc' node i acc'
                     = trie_walk cfg bits cur_word sent' sc' node' (Suc i) (acc' @ [?new'])"
              using True Inr T2 Inr2 Str by (simp add: L)
            have r: "trie_walk cfg bits cur_word sentence score node i next_states
                     = trie_walk cfg bits cur_word sentence score node' (Suc i) (next_states @ [?new])"
              using True Inr T2 Inr2 Str by (simp add: R)
            show ?thesis
            proof (cases "trie_walk cfg bits cur_word sentence score node' (Suc i) (next_states @ [?new])")
              case (Inl e)
              with ih l r show ?thesis by simp
            next
              case Inr3: (Inr ts)
              from trie_walk_new[OF Inr3] obtain rest where
                ts: "ts = (next_states @ [?new]) @ rest" by blast
              have "reroot sent' (sc' - score) ?new = ?new'"
                by (simp add: reroot_def state_score_def)
              with ih l r Inr3 ts show ?thesis by simp
            qed
          qed
        qed
      qed
    qed
  qed
qed

lemma trie_walk_from_root:
  assumes "trie_walk cfg bits cw sent sc node i acc = Inr ns"
  shows "\<exists>ts. trie_walk cfg bits cw [] 0 node i [] = Inr ts \<and>
              ns = acc @ map (reroot sent sc) ts"
  using assms trie_walk_shift[where cfg=cfg and bits=bits and cw=cw and sent'=sent and sc'=sc
                             and node=node and i=i and acc'=acc and sent="[]" and sc=0 and acc="[]"]
  by (auto split: sum.splits)

lemma process_state_dominated:
  "dominated vis (pos, w) sc \<Longrightarrow>
   process_state cfg bits dictionary (pos, w, sent, sc) (vis, res, nxt) = Inr (vis, res, nxt)"
  by (simp add: process_state_def)

lemma process_state_steps:
  assumes "process_state cfg bits dictionary (pos, w, sent, sc) (vis, res, nxt)
             = Inr (vis', res', nxt')"
      and "\<not> dominated vis (pos, w) sc"
  shows "vis' = vis((pos, w) \<mapsto> sc) \<and>
         (\<exists>rs. res' = res @ rs \<and>
            (\<forall>x. x \<in> snd ` set rs \<longleftrightarrow>
               (\<exists>d. completes cfg bits dictionary 0 (pos, w) d \<and> x = sc + d))) \<and>
         (\<exists>ts. nxt' = nxt @ ts \<and>
            (\<forall>k' x. (k', x) \<in> (\<lambda>t. (state_key t, state_score t)) ` set ts \<longleftrightarrow>
               (\<exists>d. onestep cfg bits dictionary (pos, w) k' d \<and> x = sc + d)))"
proof (cases "pos = length bits")
  case True
  have none: "\<not> onestep cfg bits dictionary (pos, w) k' d" for k' d
    using True by (simp add: onestep_def)
  show ?thesis
  proof (cases "w \<noteq> [] \<and> w \<in> dictionary")
    case W: True
    with True assms have
      "vis' = vis((pos, w) \<mapsto> sc)"
      "res' = res @ [(join_words (sent @ [w]), sc + score_word w dictionary)]"
      "nxt' = nxt @ []"
      by (auto simp: process_state_def Let_def)
    moreover have "\<forall>x. x \<in> snd ` set [(join_words (sent @ [w]), sc + score_word w dictionary)] \<longleftrightarrow>
               (\<exists>d. completes cfg bits dictionary 0 (pos, w) d \<and> x = sc + d)"
      using True W by (auto simp: completes_0)
    moreover have "\<forall>k' x. (k', x) \<in> (\<lambda>t. (state_key t, state_score t)) ` set ([] :: state list) \<longleftrightarrow>
               (\<exists>d. onestep cfg bits dictionary (pos, w) k' d \<and> x = sc + d)"
      using none by simp
    ultimately show ?thesis by blast
  next
    case W: False
    with True assms have
      "vis' = vis((pos, w) \<mapsto> sc)" "res' = res @ []" "nxt' = nxt @ []"
      by (auto simp: process_state_def Let_def)
    moreover have "\<forall>x. x \<in> snd ` set ([] :: result list) \<longleftrightarrow>
               (\<exists>d. completes cfg bits dictionary 0 (pos, w) d \<and> x = sc + d)"
      using True W by (auto simp: completes_0)
    moreover have "\<forall>k' x. (k', x) \<in> (\<lambda>t. (state_key t, state_score t)) ` set ([] :: state list) \<longleftrightarrow>
               (\<exists>d. onestep cfg bits dictionary (pos, w) k' d \<and> x = sc + d)"
      using none by simp
    ultimately show ?thesis by blast
  qed
next
  case False
  have nofin: "\<not> completes cfg bits dictionary 0 (pos, w) d" for d
    using False by (auto simp: completes_0)
  from False assms obtain n1 where
    tw: "trie_walk cfg bits w sent sc MORSE_TRIE pos nxt = Inr n1"
    by (auto simp: process_state_def Let_def split: if_splits sum.splits)
  from trie_walk_from_root[OF tw] obtain ts0 where
    root: "trie_walk cfg bits w [] 0 MORSE_TRIE pos [] = Inr ts0" and
    n1: "n1 = nxt @ map (reroot sent sc) ts0"
    by blast
  have ls: "letter_steps cfg bits (pos, w) = map (\<lambda>t. (state_key t, state_score t)) ts0"
    by (simp add: letter_steps_def root)
  have letters: "(k', x) \<in> (\<lambda>t. (state_key t, state_score t)) ` set (map (reroot sent sc) ts0) \<longleftrightarrow>
      (\<exists>d. (k', d) \<in> set (letter_steps cfg bits (pos, w)) \<and> x = sc + d)" for k' x
    unfolding ls by (auto simp: image_iff)
  have v: "vis' = vis((pos, w) \<mapsto> sc)" and r: "res' = res @ []"
    using False assms tw by (auto simp: process_state_def Let_def split: if_splits)
  have rs: "\<forall>x. x \<in> snd ` set ([] :: result list) \<longleftrightarrow>
               (\<exists>d. completes cfg bits dictionary 0 (pos, w) d \<and> x = sc + d)"
    using nofin by simp
  show ?thesis
  proof (cases "w \<noteq> [] \<and> w \<in> dictionary")
    case W: True
    let ?b = "(pos, [], sent @ [w], sc + score_word w dictionary - 2/10)"
    from W False assms tw have "nxt' = n1 @ [?b]"
      by (auto simp: process_state_def Let_def split: if_splits)
    then have nx: "nxt' = nxt @ (map (reroot sent sc) ts0 @ [?b])" using n1 by simp
    have "\<forall>k' x. (k', x) \<in> (\<lambda>t. (state_key t, state_score t)) ` set (map (reroot sent sc) ts0 @ [?b]) \<longleftrightarrow>
               (\<exists>d. onestep cfg bits dictionary (pos, w) k' d \<and> x = sc + d)"
    proof (intro allI)
      fix k' x
      have "(k', x) \<in> (\<lambda>t. (state_key t, state_score t)) ` set (map (reroot sent sc) ts0 @ [?b]) \<longleftrightarrow>
            (k', x) \<in> (\<lambda>t. (state_key t, state_score t)) ` set (map (reroot sent sc) ts0) \<or>
            (k' = (pos, []) \<and> x = sc + score_word w dictionary - 2/10)"
        by (auto simp: state_key_def state_score_def)
      also have "\<dots> \<longleftrightarrow> (\<exists>d. onestep cfg bits dictionary (pos, w) k' d \<and> x = sc + d)"
        unfolding letters using False W by (auto simp: onestep_def)
      finally show "(k', x) \<in> (\<lambda>t. (state_key t, state_score t)) ` set (map (reroot sent sc) ts0 @ [?b]) \<longleftrightarrow>
               (\<exists>d. onestep cfg bits dictionary (pos, w) k' d \<and> x = sc + d)" .
    qed
    with v r rs nx show ?thesis by blast
  next
    case W: False
    from W False assms tw have "nxt' = n1"
      by (auto simp: process_state_def Let_def split: if_splits)
    then have nx: "nxt' = nxt @ map (reroot sent sc) ts0" using n1 by simp
    have "\<forall>k' x. (k', x) \<in> (\<lambda>t. (state_key t, state_score t)) ` set (map (reroot sent sc) ts0) \<longleftrightarrow>
               (\<exists>d. onestep cfg bits dictionary (pos, w) k' d \<and> x = sc + d)"
      unfolding letters using False W by (auto simp: onestep_def)
    with v r rs nx show ?thesis by blast
  qed
qed

text \<open>
  The memo table only discards a state whose key has been expanded with a score at least as
  high. So in a run whose beam never cuts, every completion of every active state is
  matched or beaten by a returned result (by induction on the number of steps of the
  completion); and in any run, every result is the score of a decoding of the bits.
\<close>

lemma effects_mono:
  "effects cfg bits dictionary k c res nxt \<Longrightarrow> set res \<subseteq> set res' \<Longrightarrow> set nxt \<subseteq> set nxt' \<Longrightarrow>
   effects cfg bits dictionary k c res' nxt'"
  unfolding effects_def by blast

lemma process_state_effects:
  assumes "process_state cfg bits dictionary s (vis, res, nxt) = Inr (vis', res', nxt')"
  shows "set res \<subseteq> set res' \<and> set nxt \<subseteq> set nxt' \<and>
         ((vis' = vis \<and> (\<exists>v. vis (state_key s) = Some v \<and> state_score s \<le> v)) \<or>
          (vis' = vis(state_key s \<mapsto> state_score s) \<and>
           effects cfg bits dictionary (state_key s) (state_score s) res' nxt'))"
proof -
  obtain pos w sent sc where s: "s = (pos, w, sent, sc)" by (cases s) auto
  have k: "state_key s = (pos, w)" "state_score s = sc"
    by (simp_all add: s state_key_def state_score_def)
  show ?thesis
  proof (cases "dominated vis (pos, w) sc")
    case True
    with assms s have "vis' = vis" "res' = res" "nxt' = nxt"
      by (simp_all add: process_state_dominated)
    moreover from True have "\<exists>v. vis (pos, w) = Some v \<and> sc \<le> v"
      by (auto simp: dominated_def split: option.splits)
    ultimately show ?thesis using k by simp
  next
    case False
    from process_state_steps[OF assms[unfolded s] False] obtain rs ts where
      v: "vis' = vis((pos, w) \<mapsto> sc)" and
      r: "res' = res @ rs"
         "\<forall>x. x \<in> snd ` set rs \<longleftrightarrow> (\<exists>d. completes cfg bits dictionary 0 (pos, w) d \<and> x = sc + d)" and
      n: "nxt' = nxt @ ts"
         "\<forall>k' x. (k', x) \<in> (\<lambda>t. (state_key t, state_score t)) ` set ts \<longleftrightarrow>
               (\<exists>d. onestep cfg bits dictionary (pos, w) k' d \<and> x = sc + d)"
      by blast
    have "\<exists>r \<in> set res'. snd r = sc + d" if "completes cfg bits dictionary 0 (pos, w) d" for d
    proof -
      from r(2) that have "sc + d \<in> snd ` set rs" by blast
      then obtain x where "x \<in> set rs" "snd x = sc + d" by auto
      with r(1) show ?thesis by auto
    qed
    moreover have "\<exists>t \<in> set nxt'. state_key t = k' \<and> state_score t = sc + d"
      if "onestep cfg bits dictionary (pos, w) k' d" for k' d
    proof -
      from n(2) that have "(k', sc + d) \<in> (\<lambda>t. (state_key t, state_score t)) ` set ts" by blast
      then obtain t where "t \<in> set ts" "state_key t = k'" "state_score t = sc + d" by auto
      with n(1) show ?thesis by auto
    qed
    ultimately have "effects cfg bits dictionary (pos, w) sc res' nxt'"
      unfolding effects_def by blast
    with v r(1) n(1) k show ?thesis by simp
  qed
qed

lemma for_states_effects:
  "for_states cfg bits dictionary st (vis, res, nxt) = Inr (vis', res', nxt') \<Longrightarrow>
   set res \<subseteq> set res' \<and> set nxt \<subseteq> set nxt' \<and>
   (\<forall>k v. vis' k = Some v \<longrightarrow>
      vis k = Some v \<or> (\<exists>s \<in> set st. state_key s = k \<and> state_score s = v)) \<and>
   (\<forall>s \<in> set st.
      (\<exists>v. vis (state_key s) = Some v \<and> state_score s \<le> v) \<or>
      (\<exists>c. state_score s \<le> c \<and> effects cfg bits dictionary (state_key s) c res' nxt'))"
proof (induction st arbitrary: vis res nxt)
  case Nil
  then show ?case by simp
next
  case (Cons s st)
  from Cons.prems obtain v1 r1 n1 where
    p: "process_state cfg bits dictionary s (vis, res, nxt) = Inr (v1, r1, n1)" and
    f: "for_states cfg bits dictionary st (v1, r1, n1) = Inr (vis', res', nxt')"
    by (auto split: sum.splits)
  note P = process_state_effects[OF p]
  note F = Cons.IH[OF f]
  from P F have sub: "set res \<subseteq> set res'" "set nxt \<subseteq> set nxt'" by blast+
  from P have v1: "v1 = vis \<or> v1 = vis(state_key s \<mapsto> state_score s)" by blast
  have memo: "vis k = Some v \<or> (\<exists>s' \<in> set (s # st). state_key s' = k \<and> state_score s' = v)"
    if "vis' k = Some v" for k v
  proof -
    from F that have "v1 k = Some v \<or> (\<exists>s' \<in> set st. state_key s' = k \<and> state_score s' = v)"
      by blast
    then show ?thesis
    proof
      assume a: "v1 k = Some v"
      from v1 show ?thesis
      proof
        assume "v1 = vis"
        with a show ?thesis by simp
      next
        assume "v1 = vis(state_key s \<mapsto> state_score s)"
        with a show ?thesis by (cases "k = state_key s") auto
      qed
    next
      assume "\<exists>s' \<in> set st. state_key s' = k \<and> state_score s' = v"
      then show ?thesis by auto
    qed
  qed
  have head: "(\<exists>v. vis (state_key s) = Some v \<and> state_score s \<le> v) \<or>
      (\<exists>c. state_score s \<le> c \<and> effects cfg bits dictionary (state_key s) c res' nxt')"
  proof -
    from P consider
      (dom) "\<exists>v. vis (state_key s) = Some v \<and> state_score s \<le> v"
      | (eff) "effects cfg bits dictionary (state_key s) (state_score s) r1 n1"
      by blast
    then show ?thesis
    proof cases
      case dom
      then show ?thesis by blast
    next
      case eff
      from effects_mono[OF eff] F have
        "effects cfg bits dictionary (state_key s) (state_score s) res' nxt'" by blast
      then show ?thesis by blast
    qed
  qed
  have tail: "(\<exists>v. vis (state_key s') = Some v \<and> state_score s' \<le> v) \<or>
      (\<exists>c. state_score s' \<le> c \<and> effects cfg bits dictionary (state_key s') c res' nxt')"
    if "s' \<in> set st" for s'
  proof -
    from F that consider
      (dom) v where "v1 (state_key s') = Some v" "state_score s' \<le> v"
      | (eff) "\<exists>c. state_score s' \<le> c \<and> effects cfg bits dictionary (state_key s') c res' nxt'"
      by blast
    then show ?thesis
    proof cases
      case eff
      then show ?thesis by blast
    next
      case dom
      from P consider
        (same) "v1 = vis"
        | (upd) "v1 = vis(state_key s \<mapsto> state_score s)"
                "effects cfg bits dictionary (state_key s) (state_score s) r1 n1"
        by blast
      then show ?thesis
      proof cases
        case same
        with dom show ?thesis by blast
      next
        case upd
        show ?thesis
        proof (cases "state_key s' = state_key s")
          case False
          with upd(1) dom show ?thesis by auto
        next
          case True
          with upd(1) dom have le: "state_score s' \<le> state_score s" by simp
          from effects_mono[OF upd(2)] F have
            "effects cfg bits dictionary (state_key s) (state_score s) res' nxt'" by blast
          with le True show ?thesis by auto
        qed
      qed
    qed
  qed
  from sub memo head tail show ?case by auto
qed

lemma decode_loop_results:
  "decode_loop cfg bits dictionary st vis res = Inr out \<Longrightarrow> set res \<subseteq> set out"
proof (induction cfg bits dictionary st vis res rule: decode_loop.induct)
  case (1 cfg bits dictionary states visited results)
  show ?case
  proof (cases "states = []")
    case True
    with "1.prems" show ?thesis by (simp add: decode_loop.simps)
  next
    case False
    with "1.prems" obtain v' r' ns where
      f: "for_states cfg bits dictionary states (visited, results, []) = Inr (v', r', ns)" and
      rec: "decode_loop cfg bits dictionary (prune cfg ns) v' r' = Inr out"
      by (subst (asm) decode_loop.simps) (auto split: sum.splits)
    from "1.IH"[OF False f refl refl rec] for_states_effects[OF f] show ?thesis by blast
  qed
qed

lemma covers_le:
  "covers cfg bits dictionary out m k c \<Longrightarrow> m' \<le> m \<Longrightarrow> c' \<le> c \<Longrightarrow>
   covers cfg bits dictionary out m' k c'"
  unfolding covers_def by (meson add_right_mono order_trans)

lemma decode_loop_covers:
  "decode_loop cfg bits dictionary st vis res = Inr out \<Longrightarrow>
   \<forall>n \<in> set (frontier_sizes cfg bits dictionary st vis res). n \<le> beam_width cfg \<Longrightarrow>
   \<forall>k v. vis k = Some v \<longrightarrow> covers cfg bits dictionary out m k v \<Longrightarrow>
   s \<in> set st \<Longrightarrow>
   covers cfg bits dictionary out m (state_key s) (state_score s)"
proof (induction m arbitrary: st vis res s rule: less_induct)
  case (less m)
  from less.prems(4) have ne: "st \<noteq> []" by auto
  from less.prems(1) ne obtain vis' res' nxt where
    f: "for_states cfg bits dictionary st (vis, res, []) = Inr (vis', res', nxt)" and
    rec: "decode_loop cfg bits dictionary (prune cfg nxt) vis' res' = Inr out"
    by (subst (asm) decode_loop.simps) (auto split: sum.splits)
  have "frontier_sizes cfg bits dictionary st vis res
          = length nxt # frontier_sizes cfg bits dictionary (prune cfg nxt) vis' res'"
    using ne f by (subst frontier_sizes.simps) simp
  with less.prems(2) have
    len: "length nxt \<le> beam_width cfg" and
    rest: "\<forall>n \<in> set (frontier_sizes cfg bits dictionary (prune cfg nxt) vis' res').
             n \<le> beam_width cfg"
    by simp_all
  from len have pr: "set (prune cfg nxt) = set nxt" by (simp add: prune_def)
  from decode_loop_results[OF rec] have sub: "set res' \<subseteq> set out" .
  note E = for_states_effects[OF f]
  have old: "covers cfg bits dictionary out m'' k v" if "m'' \<le> m" "vis k = Some v" for m'' k v
    using less.prems(3) that covers_le[of cfg bits dictionary out m k v m'' v] by blast
  have here: "covers cfg bits dictionary out m'' (state_key s') (state_score s')"
    if "m'' < m" "s' \<in> set st" for m'' s'
  proof (rule less.IH[OF that(1) less.prems(1,2) _ that(2)])
    show "\<forall>k v. vis k = Some v \<longrightarrow> covers cfg bits dictionary out m'' k v"
      using old[of m''] that(1) by simp
  qed
  have memo: "\<forall>k v. vis' k = Some v \<longrightarrow> covers cfg bits dictionary out m'' k v"
    if "m'' < m" for m''
  proof (intro allI impI)
    fix k v assume "vis' k = Some v"
    with E have "vis k = Some v \<or> (\<exists>s' \<in> set st. state_key s' = k \<and> state_score s' = v)"
      by blast
    then show "covers cfg bits dictionary out m'' k v"
      using old[of m'' k v] here[OF that] that by auto
  qed
  have below: "covers cfg bits dictionary out m'' (state_key t) (state_score t)"
    if "m'' < m" "t \<in> set nxt" for m'' t
    using less.IH[OF that(1) rec rest memo[OF that(1)]] that(2) pr by simp
  show ?case
    unfolding covers_def
  proof (intro allI impI)
    fix m' d
    assume m': "m' \<le> m" and c: "completes cfg bits dictionary m' (state_key s) d"
    from E less.prems(4) consider
      (dom) v where "vis (state_key s) = Some v" "state_score s \<le> v"
      | (eff) c0 where "state_score s \<le> c0"
                       "effects cfg bits dictionary (state_key s) c0 res' nxt"
      by blast
    then show "\<exists>r \<in> set out. state_score s + d \<le> snd r"
    proof cases
      case dom
      from old[OF order_refl dom(1)] m' c obtain r where
        "r \<in> set out" "v + d \<le> snd r" unfolding covers_def by blast
      with dom(2) show ?thesis by force
    next
      case eff
      show ?thesis
      proof (cases m')
        case 0
        with c eff(2) obtain r where "r \<in> set res'" "snd r = c0 + d"
          unfolding effects_def by blast
        with sub eff(1) show ?thesis by force
      next
        case (Suc m'')
        with c obtain k' d1 d2 where
          o: "onestep cfg bits dictionary (state_key s) k' d1" and
          c2: "completes cfg bits dictionary m'' k' d2" and
          d: "d = d1 + d2"
          by (auto simp: completes_Suc)
        from o eff(2) obtain t where
          t: "t \<in> set nxt" "state_key t = k'" "state_score t = c0 + d1"
          unfolding effects_def by blast
        from Suc m' have "m'' < m" by simp
        from below[OF this t(1)] have
          "covers cfg bits dictionary out m'' k' (c0 + d1)" using t(2,3) by simp
        with c2 obtain r where "r \<in> set out" "c0 + d1 + d2 \<le> snd r"
          unfolding covers_def by blast
        with d eff(1) show ?thesis by force
      qed
    qed
  qed
qed

lemma process_state_on_path:
  assumes "max_word_len c' = max_word_len cfg"
      and "process_state c' bits dictionary s (vis, res, nxt) = Inr (vis', res', nxt')"
      and "on_path cfg bits dictionary s"
      and "\<forall>r \<in> set res. decoding cfg bits dictionary (snd r)"
      and "\<forall>t \<in> set nxt. on_path cfg bits dictionary t"
  shows "(\<forall>r \<in> set res'. decoding cfg bits dictionary (snd r)) \<and>
         (\<forall>t \<in> set nxt'. on_path cfg bits dictionary t)"
proof -
  obtain pos w sent sc where s: "s = (pos, w, sent, sc)" by (cases s) auto
  have k: "state_key s = (pos, w)" "state_score s = sc"
    by (simp_all add: s state_key_def state_score_def)
  from assms(2) have p:
    "process_state cfg bits dictionary (pos, w, sent, sc) (vis, res, nxt) = Inr (vis', res', nxt')"
    by (simp add: process_state_cfg[OF assms(1)] s)
  show ?thesis
  proof (cases "dominated vis (pos, w) sc")
    case True
    with p have "res' = res" "nxt' = nxt" by (simp_all add: process_state_dominated)
    with assms(4,5) show ?thesis by simp
  next
    case False
    from process_state_steps[OF p False] obtain rs ts where
      r: "res' = res @ rs"
         "\<forall>x. x \<in> snd ` set rs \<longleftrightarrow> (\<exists>d. completes cfg bits dictionary 0 (pos, w) d \<and> x = sc + d)" and
      n: "nxt' = nxt @ ts"
         "\<forall>k' x. (k', x) \<in> (\<lambda>t. (state_key t, state_score t)) ` set ts \<longleftrightarrow>
               (\<exists>d. onestep cfg bits dictionary (pos, w) k' d \<and> x = sc + d)"
      by blast
    have "decoding cfg bits dictionary (snd x)" if "x \<in> set rs" for x
    proof -
      from that r(2) obtain d where "completes cfg bits dictionary 0 (pos, w) d" "snd x = sc + d"
        by blast
      with assms(3) k show ?thesis unfolding on_path_def by auto
    qed
    moreover have "on_path cfg bits dictionary t" if "t \<in> set ts" for t
      unfolding on_path_def
    proof (intro allI impI)
      fix m d assume c: "completes cfg bits dictionary m (state_key t) d"
      from that have "(state_key t, state_score t) \<in> (\<lambda>t. (state_key t, state_score t)) ` set ts"
        by blast
      with n(2) obtain d1 where
        o: "onestep cfg bits dictionary (pos, w) (state_key t) d1" and sc: "state_score t = sc + d1"
        by blast
      from completes.step[OF o c] have "completes cfg bits dictionary (Suc m) (pos, w) (d1 + d)" .
      with assms(3) k have "decoding cfg bits dictionary (sc + (d1 + d))"
        unfolding on_path_def by auto
      with sc show "decoding cfg bits dictionary (state_score t + d)" by (simp add: add.assoc)
    qed
    ultimately show ?thesis using r(1) n(1) assms(4,5) by auto
  qed
qed

lemma for_states_on_path:
  "max_word_len c' = max_word_len cfg \<Longrightarrow>
   for_states c' bits dictionary st (vis, res, nxt) = Inr (vis', res', nxt') \<Longrightarrow>
   \<forall>s \<in> set st. on_path cfg bits dictionary s \<Longrightarrow>
   \<forall>r \<in> set res. decoding cfg bits dictionary (snd r) \<Longrightarrow>
   \<forall>t \<in> set nxt. on_path cfg bits dictionary t \<Longrightarrow>
   (\<forall>r \<in> set res'. decoding cfg bits dictionary (snd r)) \<and>
   (\<forall>t \<in> set nxt'. on_path cfg bits dictionary t)"
proof (induction st arbitrary: vis res nxt)
  case Nil
  then show ?case by simp
next
  case (Cons s st)
  from Cons.prems(2) obtain v1 r1 n1 where
    p: "process_state c' bits dictionary s (vis, res, nxt) = Inr (v1, r1, n1)" and
    f: "for_states c' bits dictionary st (v1, r1, n1) = Inr (vis', res', nxt')"
    by (auto split: sum.splits)
  from Cons.prems(3) have s: "on_path cfg bits dictionary s"
    and st: "\<forall>s \<in> set st. on_path cfg bits dictionary s" by simp_all
  from process_state_on_path[OF Cons.prems(1) p s Cons.prems(4,5)] have
    "\<forall>r \<in> set r1. decoding cfg bits dictionary (snd r)" "\<forall>t \<in> set n1. on_path cfg bits dictionary t"
    by blast+
  from Cons.IH[OF Cons.prems(1) f st this] show ?case .
qed

lemma decode_loop_on_path:
  "max_word_len c' = max_word_len cfg \<Longrightarrow>
   decode_loop c' bits dictionary st vis res = Inr out \<Longrightarrow>
   \<forall>s \<in> set st. on_path cfg bits dictionary s \<Longrightarrow>
   \<forall>r \<in> set res. decoding cfg bits dictionary (snd r) \<Longrightarrow>
   \<forall>r \<in> set out. decoding cfg bits dictionary (snd r)"
proof (induction c' bits dictionary st vis res rule: decode_loop.induct)
  case (1 c' bits dictionary states visited results)
  show ?case
  proof (cases "states = []")
    case True
    with "1.prems"(2,4) show ?thesis by (simp add: decode_loop.simps)
  next
    case False
    with "1.prems"(2) obtain v' r' ns where
      f: "for_states c' bits dictionary states (visited, results, []) = Inr (v', r', ns)" and
      rec: "decode_loop c' bits dictionary (prune c' ns) v' r' = Inr out"
      by (subst (asm) decode_loop.simps) (auto split: sum.splits)
    from for_states_on_path[OF "1.prems"(1) f "1.prems"(3,4)] have
      r': "\<forall>r \<in> set r'. decoding cfg bits dictionary (snd r)" and
      ns: "\<forall>t \<in> set ns. on_path cfg bits dictionary t"
      by simp_all
    from ns set_prune[of c' ns] have "\<forall>t \<in> set (prune c' ns). on_path cfg bits dictionary t"
      by blast
    from "1.IH"[OF False f refl refl "1.prems"(1) rec this r'] show ?thesis .
  qed
qed

lemma top_score_sorted:
  assumes "r \<in> set rs" "0 < n"
  shows "\<exists>t. top_score (take n (sort_key (\<lambda>x. - snd x) rs)) = Some t \<and> snd r \<le> t"
proof -
  let ?ss = "sort_key (\<lambda>x. - snd x) rs"
  from assms(1) have "r \<in> set ?ss" by simp
  then obtain a rest where ss: "?ss = a # rest" by (cases ?ss) auto
  have "descending ?ss" by (rule descending_sort)
  with ss have "\<forall>x \<in> set rest. snd x \<le> snd a" by (simp add: descending_def)
  with \<open>r \<in> set ?ss\<close> ss have "snd r \<le> snd a" by auto
  moreover from assms(2) ss have "top_score (take n ?ss) = Some (snd a)"
    by (cases n) simp_all
  ultimately show ?thesis by simp
qed

lemma top_score_member:
  assumes "top_score (take n rs) = Some t"
  shows "0 < n \<and> (\<exists>r \<in> set rs. snd r = t)"
proof (cases n)
  case 0
  with assms show ?thesis by simp
next
  case (Suc n')
  with assms show ?thesis by (cases rs) auto
qed


section \<open>Merging result lists\<close>

lemma map_of_dict_set: "map_of (dict_set es k v) = (map_of es)(k \<mapsto> v)"
  by (induction es) (auto simp: fun_eq_iff)

lemma keys_dict_set: "fst ` set (dict_set es k v) = insert k (fst ` set es)"
  by (simp add: dom_map_of_conv_image_fst[symmetric] map_of_dict_set)

lemma distinct_dict_set: "distinct (map fst es) \<Longrightarrow> distinct (map fst (dict_set es k v))"
proof (induction es)
  case Nil
  then show ?case by simp
next
  case (Cons e es)
  obtain k' v' where e: "e = (k', v')" by (cases e) auto
  from Cons show ?case
    using keys_dict_set[of es k v] by (auto simp: e)
qed

lemma map_of_keep_best:
  "map_of (keep_best best (t, s)) =
     (map_of best)(t \<mapsto> (case map_of best t of None \<Rightarrow> s | Some old \<Rightarrow> max old s))"
  by (auto simp: keep_best_def map_of_dict_set fun_eq_iff max_def split: option.splits)

lemma keys_keep_best: "fst ` set (keep_best best (t, s)) = insert t (fst ` set best)"
proof (cases "map_of best t")
  case None
  then show ?thesis by (simp add: keep_best_def keys_dict_set)
next
  case (Some old)
  then have "t \<in> fst ` set best" by (metis domI dom_map_of_conv_image_fst)
  with Some show ?thesis by (auto simp: keep_best_def keys_dict_set)
qed

lemma distinct_keep_best:
  "distinct (map fst best) \<Longrightarrow> distinct (map fst (keep_best best r))"
  by (cases r) (auto simp: keep_best_def distinct_dict_set split: option.splits)

lemma distinct_dedupe:
  "distinct (map fst best) \<Longrightarrow> distinct (map fst (dedupe rs best))"
  by (induction rs arbitrary: best) (simp_all add: distinct_keep_best)

lemma keys_dedupe: "fst ` set (dedupe rs best) = fst ` set best \<union> fst ` set rs"
proof (induction rs arbitrary: best)
  case Nil
  show ?case by simp
next
  case (Cons r rs)
  obtain t s where r: "r = (t, s)" by (cases r) auto
  show ?case by (simp add: r Cons.IH keys_keep_best)
qed

lemma map_of_dedupe:
  "map_of (dedupe rs best) t = Some s \<Longrightarrow>
   (map_of best t = Some s \<or> (t, s) \<in> set rs) \<and>
   (\<forall>s'. (t, s') \<in> set rs \<longrightarrow> s' \<le> s) \<and>
   (\<forall>s0. map_of best t = Some s0 \<longrightarrow> s0 \<le> s)"
proof (induction rs arbitrary: best)
  case Nil
  then show ?case by simp
next
  case (Cons r rs)
  obtain t1 s1 where r: "r = (t1, s1)" by (cases r) auto
  from Cons.prems have "map_of (dedupe rs (keep_best best (t1, s1))) t = Some s"
    by (simp add: r)
  from Cons.IH[OF this] have
    a: "map_of (keep_best best (t1, s1)) t = Some s \<or> (t, s) \<in> set rs" and
    b: "\<forall>s'. (t, s') \<in> set rs \<longrightarrow> s' \<le> s" and
    c: "\<forall>s0. map_of (keep_best best (t1, s1)) t = Some s0 \<longrightarrow> s0 \<le> s"
    by blast+
  show ?case
  proof (cases "t = t1")
    case False
    with a b c show ?thesis by (simp add: r map_of_keep_best)
  next
    case True
    show ?thesis
    proof (cases "map_of best t1")
      case None
      with True a b c show ?thesis by (auto simp: r map_of_keep_best)
    next
      case (Some old)
      with True a b c show ?thesis
        by (auto simp: r map_of_keep_best max_def split: if_splits)
    qed
  qed
qed

lemma dedupe_best:
  assumes "(t, s) \<in> set (dedupe rs [])"
  shows "(t, s) \<in> set rs \<and> (\<forall>s'. (t, s') \<in> set rs \<longrightarrow> s' \<le> s)"
proof -
  have "distinct (map fst (dedupe rs []))" by (simp add: distinct_dedupe)
  with assms have "map_of (dedupe rs []) t = Some s" by simp
  from map_of_dedupe[OF this] show ?thesis by simp
qed

lemma dedupe_once:
  assumes "(t, s) \<in> set rs"
  shows "\<exists>!m. (t, m) \<in> set (dedupe rs [])"
proof -
  have d: "distinct (map fst (dedupe rs []))" by (simp add: distinct_dedupe)
  from assms have "t \<in> fst ` set (dedupe rs [])" by (force simp: keys_dedupe)
  then obtain m where m: "(t, m) \<in> set (dedupe rs [])" by auto
  moreover have "m' = m" if "(t, m') \<in> set (dedupe rs [])" for m'
    using d m that by (meson eq_key_imp_eq_value)
  ultimately show ?thesis by blast
qed

lemma rank_results_subset: "set (rank_results cfg rs) \<subseteq> set (dedupe rs [])"
  unfolding rank_results_def
  using set_take_subset[of "max_results cfg" "sort_key (\<lambda>x. - snd x) (dedupe rs [])"]
  by simp

lemma rank_results_distinct: "distinct (map fst (rank_results cfg rs))"
proof -
  have "distinct (map fst (dedupe rs []))" by (simp add: distinct_dedupe)
  then have "distinct (map fst (sort_key (\<lambda>x. - snd x) (dedupe rs [])))"
    by (metis distinct_map distinct_sort set_sort)
  then show ?thesis
    unfolding rank_results_def by (simp add: take_map[symmetric])
qed

lemma rank_results_all:
  "length (dedupe rs []) \<le> max_results cfg \<Longrightarrow> set (rank_results cfg rs) = set (dedupe rs [])"
  by (simp add: rank_results_def)

lemma rank_results_cut:
  assumes "(t, s) \<in> set (dedupe rs [])" "(t, s) \<notin> set (rank_results cfg rs)"
    and "(t', s') \<in> set (rank_results cfg rs)"
  shows "s \<le> s'"
proof -
  let ?xs = "sort_key (\<lambda>x. - snd x) (dedupe rs [])"
  let ?n = "max_results cfg"
  have d: "descending ?xs" by (rule descending_sort)
  from assms(1) have "(t, s) \<in> set ?xs" by simp
  moreover have "set ?xs = set (take ?n ?xs) \<union> set (drop ?n ?xs)"
    by (metis append_take_drop_id set_append)
  ultimately have "(t, s) \<in> set (drop ?n ?xs)"
    using assms(2) by (auto simp: rank_results_def)
  moreover from assms(3) have "(t', s') \<in> set (take ?n ?xs)" by (simp add: rank_results_def)
  moreover have "sorted_wrt (\<lambda>a b. snd a \<ge> snd b) (take ?n ?xs @ drop ?n ?xs)"
    using d by (simp add: descending_def)
  ultimately show ?thesis
    unfolding sorted_wrt_append by fastforce
qed

lemma filter_text_distinct:
  "distinct (map fst xs) \<Longrightarrow> (t, s) \<in> set xs \<Longrightarrow> filter (\<lambda>r. fst r = t) xs = [(t, s)]"
proof (induction xs)
  case Nil
  then show ?case by simp
next
  case (Cons x xs)
  show ?case
  proof (cases "x = (t, s)")
    case True
    with Cons.prems(1) have "t \<notin> fst ` set xs" by simp
    then have "filter (\<lambda>r. fst r = t) xs = []" by (auto simp: filter_empty_conv)
    with True show ?thesis by simp
  next
    case False
    with Cons.prems(2) have in_xs: "(t, s) \<in> set xs" by simp
    then have "t \<in> fst ` set xs" by force
    with Cons.prems(1) have "fst x \<noteq> t" by auto
    with Cons.IH in_xs Cons.prems(1) show ?thesis by simp
  qed
qed

lemma dedupe_two:
  assumes "(t, a) \<in> set normal" "(t, b) \<in> set reversed"
    and "\<forall>s'. (t, s') \<in> set (normal @ reversed) \<longrightarrow> s' = a \<or> s' = b"
  shows "(t, max a b) \<in> set (dedupe (normal @ reversed) [])"
proof -
  from assms(1) have "(t, a) \<in> set (normal @ reversed)" by simp
  from dedupe_once[OF this] obtain s where s: "(t, s) \<in> set (dedupe (normal @ reversed) [])"
    by blast
  from dedupe_best[OF s] assms have "s = a \<or> s = b" "a \<le> s" "b \<le> s" by auto
  then have "s = max a b" by auto
  with s show ?thesis by simp
qed

section \<open>Concrete runs\<close>

lemmas run_simps =
  brute_force_decode_def decode_loop.simps
  process_state_def trie_walk.simps MORSE_TRIE_value prune_def state_score_def dominated_def
  score_word_def score_letter_def LETTER_FREQ_def module_config_def BEAM_WIDTH_def
  MAX_WORD_LEN_def MAX_RESULTS_def Let_def

lemma polarity_normal:
  "decode_with_polarity cfg ''111111'' dictionary False
     = brute_force_decode cfg ''......'' dictionary"
  by (simp add: decode_with_polarity_def replace_char_def)

lemma polarity_inverted:
  "decode_with_polarity cfg ''111111'' dictionary True
     = brute_force_decode cfg ''------'' dictionary"
  by (simp add: decode_with_polarity_def replace_char_def swap_bits_def)

lemma run_dots: "brute_force_decode module_config ''......'' {''HI''} = Inr [(''HI'', 79/10)]"
  by (simp add: run_simps)

lemma run_dashes: "brute_force_decode module_config ''------'' {''HI''} = Inr []"
  by (simp add: run_simps)

lemma first_generation:
  "for_states module_config ''..'' {''I''} [(0, [], [], 0)] (Map.empty, [], [])
     = Inr (Map.empty((0, []) \<mapsto> 0), [], [(1, ''E'', [], 1), (2, ''I'', [], 3/4)])"
  by (simp add: run_simps)

lemma run_beam_2:
  "brute_force_decode (module_config\<lparr>beam_width := 2\<rparr>) ''--.--'' {''AT'', ''TN'', ''M''}
     = Inr [(''M AT'', 69/5)]"
  by (simp add: run_simps)

lemma run_beam_3:
  "brute_force_decode (module_config\<lparr>beam_width := 3\<rparr>) ''--.--'' {''AT'', ''TN'', ''M''}
     = Inr [(''TN M'', 137/10)]"
  by (simp add: run_simps)

lemma run_beam_14:
  "brute_force_decode (module_config\<lparr>beam_width := 14\<rparr>) ''--.--'' {''AT'', ''TN'', ''M''}
     = Inr [(''M AT'', 69/5), (''TN M'', 137/10)]"
  by (simp add: run_simps)

lemma generations_beam_14:
  "generations (module_config\<lparr>beam_width := 14\<rparr>) ''--.--'' {''AT'', ''TN'', ''M''}
     = [4, 11, 14, 10, 3, 0]"
  by (simp add: generations_def frontier_sizes.simps run_simps)

text \<open>
  Claim C2. With the dictionary \<open>{HI}\<close> and the bitstream \<open>111111\<close>, the normal-polarity
  decode returns the list whose only (hence top) entry is \<open>(HI, s)\<close> with
  \<open>s = score_letter H + score_letter I + score_word HI = 0.7 + 0.75 + (0.7 + 0.75 + 5.0)\<close>,
  and the inverted-polarity decode returns the empty list.
\<close>

theorem hi_scenario:
  "decode_with_polarity module_config ''111111'' {''HI''} False =
     Inr [(''HI'', score_letter ''H'' + score_letter ''I'' + score_word ''HI'' {''HI''})] \<and>
   score_letter ''H'' + score_letter ''I'' + score_word ''HI'' {''HI''} =
     7/10 + 75/100 + (7/10 + 75/100 + 5) \<and>
   decode_with_polarity module_config ''111111'' {''HI''} True = Inr []"
proof -
  have "score_letter ''H'' + score_letter ''I'' + score_word ''HI'' {''HI''} = 79/10"
    by (simp add: score_word_def score_letter_def LETTER_FREQ_def)
  then show ?thesis
    by (simp add: polarity_normal polarity_inverted run_dots run_dashes)
qed

text \<open>
  Claim C8, at the bitstream \<open>1$E\<close>: the walk takes the key \<open>$\<close> of the node of E as an
  edge, lands on the string \<open>"E"\<close>, finds the next character \<open>E\<close> in it and indexes the
  string: decoding raises TypeError under normal polarity, whatever the dictionary, and so
  does the whole of \<open>main\<close>.
\<close>

theorem dollar_raises:
  "decode_with_polarity module_config ''1$E'' dictionary False = Inl TypeError \<and>
   main_ranked module_config ''1$E'' dictionary = Inl TypeError"
proof -
  have "decode_with_polarity module_config ''1$E'' dictionary False = Inl TypeError"
    by (simp add: decode_with_polarity_def replace_char_def run_simps)
  then show ?thesis by (simp add: main_ranked_def)
qed

section \<open>Claims about every run\<close>

text \<open>
  Claim C4. For every symbol sequence (a string of dots and dashes; the proof needs only
  that it holds no \<open>$\<close>) and every dictionary, the decoder returns a list of
  \<open>(text, score)\<close> pairs, at most \<open>MAX_RESULTS\<close> long and in descending order of score.
\<close>

theorem decode_contract:
  assumes "CHR ''$'' \<notin> set bits"
  shows "\<exists>rs. brute_force_decode cfg bits dictionary = Inr rs \<and>
           length rs \<le> max_results cfg \<and> descending rs \<and>
           max_results module_config = MAX_RESULTS"
proof -
  from brute_force_decode_ok[OF assms] obtain rs where
    rs: "brute_force_decode cfg bits dictionary = Inr rs" by blast
  from brute_force_decode_shape[OF rs] rs show ?thesis
    by (simp add: module_config_def)
qed

theorem decode_contract_witness:
  "CHR ''$'' \<notin> set ''......'' \<and>
   (\<exists>rs. brute_force_decode module_config ''......'' {''HI''} = Inr rs \<and>
      length rs \<le> MAX_RESULTS \<and> descending rs)"
  using decode_contract [of "''......''" module_config "{''HI''}"]
  by (simp add: module_config_def)

text \<open>
  Claim C9. The generational loop terminates for every input and configuration. Every
  successor state of a generation either strictly advances the position of a state of that
  generation or resets its non-empty partial word at the same position; so the loop (a total
  function, by the termination proof above) runs at most \<open>2 * n + 1\<close> generations on
  \<open>n\<close> symbols, and on a symbol sequence it returns a result list.
\<close>

theorem decode_terminates:
  "(for_states cfg bits dictionary states (visited, results, []) = Inr (visited', results', next_states)
      \<longrightarrow> (\<forall>s \<in> set next_states. \<exists>st \<in> set states. successor_of st s)) \<and>
   length (generations cfg bits dictionary) \<le> 2 * length bits + 1 \<and>
   (CHR ''$'' \<notin> set bits \<longrightarrow> (\<exists>rs. brute_force_decode cfg bits dictionary = Inr rs))"
proof -
  have "\<forall>s \<in> set next_states. \<exists>st \<in> set states. successor_of st s"
    if "for_states cfg bits dictionary states (visited, results, []) = Inr (visited', results', next_states)"
    using for_states_successor[OF that] by simp
  moreover have "length (generations cfg bits dictionary)
          \<le> frontier_weight (length bits) [(0, [], [], 0)]"
    unfolding generations_def by (rule frontier_sizes_bound)
  then have "length (generations cfg bits dictionary) \<le> 2 * length bits + 1"
    by (simp add: state_weight_def)
  ultimately show ?thesis using brute_force_decode_ok by blast
qed

theorem decode_terminates_witness:
  "successor_of (0, [], [], 0) (1, ''E'', [], 1) \<and>
   successor_of (0, [], [], 0) (2, ''I'', [], 3/4) \<and>
   length (generations module_config ''..'' {''I''}) \<le> 5 \<and>
   (\<exists>rs. brute_force_decode module_config ''..'' {''I''} = Inr rs)"
  using decode_terminates [of module_config "''..''" "{''I''}" "[(0, [], [], 0)]" Map.empty "[]"
          "Map.empty((0, []) \<mapsto> 0)" "[]" "[(1, ''E'', [], 1), (2, ''I'', [], 3/4)]"]
        first_generation
  by (simp add: successor_of_def)

text \<open>
  Claim C10. Every result the decoder returns is a non-empty text, the join of a non-empty
  sentence whose words, the last one included, are all non-empty dictionary words; so with
  an empty dictionary the decoder returns the empty list on every symbol sequence.
\<close>

theorem results_are_dictionary_sentences:
  "(brute_force_decode cfg bits dictionary = Inr rs \<longrightarrow>
      (\<forall>r \<in> set rs. fst r \<noteq> [] \<and>
         (\<exists>ws. ws \<noteq> [] \<and> committed dictionary ws \<and> fst r = join_words ws))) \<and>
   (CHR ''$'' \<notin> set bits \<longrightarrow> brute_force_decode cfg bits {} = Inr [])"
proof -
  have "fst r \<noteq> [] \<and> (\<exists>ws. ws \<noteq> [] \<and> committed dictionary ws \<and> fst r = join_words ws)"
    if "brute_force_decode cfg bits dictionary = Inr rs" "r \<in> set rs" for r
  proof -
    from brute_force_decode_ok_words[OF that(1)] that(2) have "result_ok dictionary r"
      by (simp add: list_all_iff)
    then obtain ws where ws: "ws \<noteq> []" "committed dictionary ws" "fst r = join_words ws"
      by (auto simp: result_ok_def)
    with join_words_nonempty[OF ws(1,2)] show ?thesis by auto
  qed
  moreover have "brute_force_decode cfg bits {} = Inr []" if "CHR ''$'' \<notin> set bits"
  proof -
    from brute_force_decode_ok[OF that] obtain rs0 where
      rs0: "brute_force_decode cfg bits {} = Inr rs0" by blast
    have "rs0 = []"
    proof (cases rs0)
      case Nil
      then show ?thesis .
    next
      case (Cons r rest)
      with brute_force_decode_ok_words[OF rs0] have "result_ok {} r" by simp
      then obtain ws where "ws \<noteq> []" "committed {} ws" by (auto simp: result_ok_def)
      then show ?thesis by (cases ws) (auto simp: committed_def)
    qed
    with rs0 show ?thesis by simp
  qed
  ultimately show ?thesis by blast
qed

theorem results_are_dictionary_sentences_witness:
  "brute_force_decode module_config ''......'' {''HI''} = Inr [(''HI'', 79/10)] \<and>
   (\<exists>ws. ws \<noteq> [] \<and> committed {''HI''} ws \<and> ''HI'' = join_words ws) \<and>
   brute_force_decode module_config ''......'' {} = Inr []"
  using results_are_dictionary_sentences
          [of module_config "''......''" "{''HI''}" "[(''HI'', 79/10)]"]
        run_dots
  by simp

section \<open>End of the sequence\<close>

text \<open>
  Claim C1 as stated fails on the empty symbol sequence: the initial state is at
  \<open>position == n\<close> with an empty partial word, and the decoder adds nothing for it, where
  the claim has it add \<open>(join(()), 0.0)\<close>.
\<close>

theorem empty_sequence_no_result:
  "brute_force_decode module_config [] {} = Inr [] \<and>
   brute_force_decode module_config [] {} \<noteq> Inr [(join_words [], 0)]"
  by (simp add: run_simps)

text \<open>
  Claim C1, amended. A state at \<open>position == n\<close> that the memo table does not discard is
  recorded in the memo table and finalized exactly when its partial word is non-empty and
  a dictionary member: then \<open>(join(sentence + partial_word), score + score_word(partial_word))\<close>
  is appended to the results; with an empty or non-dictionary partial word nothing is
  appended. In every case the state produces no successor state.
\<close>

theorem end_of_sequence:
  "process_state cfg bits dictionary (length bits, cur_word, sentence, score)
     (visited, results, next_states) =
   Inr (if dominated visited (length bits, cur_word) score
        then (visited, results, next_states)
        else (visited((length bits, cur_word) \<mapsto> score),
              if cur_word \<noteq> [] \<and> cur_word \<in> dictionary
              then results @ [(join_words (sentence @ [cur_word]),
                               score + score_word cur_word dictionary)]
              else results,
              next_states))"
  by (simp add: process_state_def Let_def)

theorem end_of_sequence_witness:
  "map_sum id (\<lambda>acc. (fst (snd acc), snd (snd acc)))
     (process_state module_config ''..'' {''I''} (2, ''I'', [''E''], 3/4) (Map.empty, [], []))
     = Inr ([(''E I'', 3/4 + score_word ''I'' {''I''})], []) \<and>
   map_sum id (\<lambda>acc. (fst (snd acc), snd (snd acc)))
     (process_state module_config ''..'' {''I''} (2, [], [''I''], 3/4) (Map.empty, [], []))
     = Inr ([], [])"
  using end_of_sequence [of module_config "''..''" "{''I''}" "''I''" "[''E'']" "3/4" Map.empty "[]" "[]"]
        end_of_sequence [of module_config "''..''" "{''I''}" "[]" "[''I'']" "3/4" Map.empty "[]" "[]"]
  by (simp add: dominated_def numeral_2_eq_2)

section \<open>Beam width and the top score\<close>

text \<open>
  Claim C3 as stated fails: on \<open>--.--\<close> with the dictionary \<open>{AT, TN, M}\<close>, beam width 2
  finds \<open>M AT\<close> with score 13.8, and beam width 3 only \<open>TN M\<close> with score 13.7.
\<close>

theorem wider_beam_lower_top_score:
  "brute_force_decode (module_config\<lparr>beam_width := 2\<rparr>) ''--.--'' {''AT'', ''TN'', ''M''}
     = Inr [(''M AT'', 69/5)] \<and>
   brute_force_decode (module_config\<lparr>beam_width := 3\<rparr>) ''--.--'' {''AT'', ''TN'', ''M''}
     = Inr [(''TN M'', 137/10)] \<and>
   top_score [(''M AT'', 69/5)] = Some (69/5) \<and>
   top_score [(''TN M'', 137/10)] = Some (137/10) \<and> (137/10 :: rat) < 69/5"
  by (simp add: run_beam_2 run_beam_3)

text \<open>
  Claim C3, amended. Take beam widths \<open>b1 \<le> b2\<close> such that no generation of the run
  with beam width \<open>b2\<close> produces more than \<open>b2\<close> successor states (the wider beam never
  cuts). Then the top-1 score of the run with \<open>b2\<close> is greater than or equal to the top-1
  score of the run with \<open>b1\<close>: whenever the narrower run returns a non-empty list, so
  does the wider run, and its first score is at least as high. Neither the proof nor the
  statement needs \<open>b1 \<le> b2\<close>. Nothing is promised once the wider beam cuts, as on
  \<open>--.--\<close> with widths 2 and 3.
\<close>

theorem untruncated_wider_beam_top_score:
  assumes "brute_force_decode (cfg\<lparr>beam_width := narrow\<rparr>) bits dictionary = Inr rs_narrow"
      and "brute_force_decode (cfg\<lparr>beam_width := wide\<rparr>) bits dictionary = Inr rs_wide"
      and "\<forall>k \<in> set (generations (cfg\<lparr>beam_width := wide\<rparr>) bits dictionary). k \<le> wide"
      and "top_score rs_narrow = Some t"
  shows "\<exists>t'. top_score rs_wide = Some t' \<and> t \<le> t'"
proof -
  let ?c1 = "cfg\<lparr>beam_width := narrow\<rparr>" and ?c2 = "cfg\<lparr>beam_width := wide\<rparr>"
  from assms(1) obtain out where
    o1: "decode_loop ?c1 bits dictionary [(0, [], [], 0)] Map.empty [] = Inr out" and
    rs_narrow: "rs_narrow = take (max_results cfg) (sort_key (\<lambda>x. - snd x) out)"
    by (auto simp: brute_force_decode_def split: sum.splits)
  from assms(2) obtain out' where
    o2: "decode_loop ?c2 bits dictionary [(0, [], [], 0)] Map.empty [] = Inr out'" and
    rs_wide: "rs_wide = take (max_results cfg) (sort_key (\<lambda>x. - snd x) out')"
    by (auto simp: brute_force_decode_def split: sum.splits)
  from top_score_member[OF assms(4)[unfolded rs_narrow]] obtain r1 where
    n: "0 < max_results cfg" and r1: "r1 \<in> set out" "snd r1 = t" by auto
  have init: "\<forall>s \<in> set [(0, [], [], 0)]. on_path ?c2 bits dictionary s"
    by (simp add: on_path_def decoding_def state_key_def state_score_def) blast
  have "\<forall>r \<in> set out. decoding ?c2 bits dictionary (snd r)"
    by (rule decode_loop_on_path[OF _ o1 init]) simp_all
  with r1 obtain m where m: "completes ?c2 bits dictionary m (0, []) t"
    unfolding decoding_def by blast
  have "covers ?c2 bits dictionary out' m (state_key (0, [], [], 0)) (state_score (0, [], [], 0))"
    by (rule decode_loop_covers[OF o2]) (use assms(3) in \<open>simp_all add: generations_def\<close>)
  then have "covers ?c2 bits dictionary out' m (0, []) 0"
    by (simp add: state_key_def state_score_def)
  with m have "\<exists>r \<in> set out'. 0 + t \<le> snd r"
    unfolding covers_def by blast
  then obtain r2 where "r2 \<in> set out'" "t \<le> snd r2" by auto
  with top_score_sorted[OF this(1) n] rs_wide show ?thesis by force
qed

theorem untruncated_wider_beam_top_score_witness:
  "brute_force_decode (module_config\<lparr>beam_width := 3\<rparr>) ''--.--'' {''AT'', ''TN'', ''M''}
     = Inr [(''TN M'', 137/10)] \<and>
   brute_force_decode (module_config\<lparr>beam_width := 14\<rparr>) ''--.--'' {''AT'', ''TN'', ''M''}
     = Inr [(''M AT'', 69/5), (''TN M'', 137/10)] \<and>
   generations (module_config\<lparr>beam_width := 14\<rparr>) ''--.--'' {''AT'', ''TN'', ''M''}
     = [4, 11, 14, 10, 3, 0] \<and>
   top_score [(''TN M'', 137/10 :: rat)] = Some (137/10) \<and>
   (\<exists>t'. top_score [(''M AT'', 69/5 :: rat), (''TN M'', 137/10)] = Some t' \<and> 137/10 \<le> t')"
  using untruncated_wider_beam_top_score [where cfg = module_config and narrow = 3 and wide = 14
          and bits = "''--.--''" and dictionary = "{''AT'', ''TN'', ''M''}"
          and rs_narrow = "[(''TN M'', 137/10)]"
          and rs_wide = "[(''M AT'', 69/5), (''TN M'', 137/10)]" and t = "137/10"]
        run_beam_3 run_beam_14 generations_beam_14
  by simp

section \<open>Merging the two polarity runs\<close>

text \<open>
  Claim C5. \<open>main\<close> merges the result lists of the two polarity runs; what it does holds
  for any two lists. The merge builds a table with exactly one entry per distinct text of
  the two lists, carrying the maximum score over all occurrences of that text in either
  list; the output is this table sorted in descending order of score and truncated to
  \<open>MAX_RESULTS\<close> entries. So the output holds a text at most once, always with its
  maximum score, and an entry that the truncation drops scores no more than any entry that
  is kept. In particular, when both lists contain a text such as \<open>HI\<close>, with the score
  \<open>a\<close> in one and \<open>b\<close> in the other, the merged table holds exactly one entry for
  it, with the higher of the two scores; the output holds no other entry for it, and holds
  this one whenever the table has at most \<open>MAX_RESULTS\<close> entries.
\<close>

theorem rank_results_spec:
  "distinct (map fst (dedupe (normal @ reversed) [])) \<and>
   fst ` set (dedupe (normal @ reversed) []) = fst ` set normal \<union> fst ` set reversed \<and>
   (\<forall>t s. (t, s) \<in> set (dedupe (normal @ reversed) []) \<longrightarrow>
      (t, s) \<in> set (normal @ reversed) \<and>
      (\<forall>s'. (t, s') \<in> set (normal @ reversed) \<longrightarrow> s' \<le> s)) \<and>
   rank_results cfg (normal @ reversed) =
     take (max_results cfg) (sort_key (\<lambda>x. - snd x) (dedupe (normal @ reversed) [])) \<and>
   length (rank_results cfg (normal @ reversed)) \<le> max_results cfg \<and>
   descending (rank_results cfg (normal @ reversed)) \<and>
   distinct (map fst (rank_results cfg (normal @ reversed))) \<and>
   set (rank_results cfg (normal @ reversed)) \<subseteq> set (dedupe (normal @ reversed) []) \<and>
   (\<forall>t s t' s'. (t, s) \<in> set (dedupe (normal @ reversed) []) \<and>
      (t, s) \<notin> set (rank_results cfg (normal @ reversed)) \<and>
      (t', s') \<in> set (rank_results cfg (normal @ reversed)) \<longrightarrow> s \<le> s') \<and>
   (length (dedupe (normal @ reversed) []) \<le> max_results cfg \<longrightarrow>
      set (rank_results cfg (normal @ reversed)) = set (dedupe (normal @ reversed) [])) \<and>
   ((t, a) \<in> set normal \<and> (t, b) \<in> set reversed \<and>
    (\<forall>s'. (t, s') \<in> set (normal @ reversed) \<longrightarrow> s' = a \<or> s' = b) \<longrightarrow>
      filter (\<lambda>r. fst r = t) (dedupe (normal @ reversed) []) = [(t, max a b)] \<and>
      (\<forall>s'. (t, s') \<in> set (rank_results cfg (normal @ reversed)) \<longrightarrow> s' = max a b) \<and>
      (length (dedupe (normal @ reversed) []) \<le> max_results cfg \<longrightarrow>
         filter (\<lambda>r. fst r = t) (rank_results cfg (normal @ reversed)) = [(t, max a b)])) \<and>
   (decode_with_polarity cfg bitstream dictionary False = Inr normal \<and>
    decode_with_polarity cfg bitstream dictionary True = Inr reversed \<longrightarrow>
      main_ranked cfg bitstream dictionary = Inr (rank_results cfg (normal @ reversed)))"
proof -
  let ?rs = "normal @ reversed"
  have d: "distinct (map fst (dedupe ?rs []))" by (simp add: distinct_dedupe)
  have "fst ` set (dedupe ?rs []) = fst ` set normal \<union> fst ` set reversed"
    by (simp add: keys_dedupe image_Un)
  moreover have "\<forall>t s. (t, s) \<in> set (dedupe ?rs []) \<longrightarrow>
      (t, s) \<in> set ?rs \<and> (\<forall>s'. (t, s') \<in> set ?rs \<longrightarrow> s' \<le> s)"
    using dedupe_best[of _ _ ?rs] by blast
  moreover have "rank_results cfg ?rs =
     take (max_results cfg) (sort_key (\<lambda>x. - snd x) (dedupe ?rs []))"
    by (simp add: rank_results_def)
  moreover have "length (rank_results cfg ?rs) \<le> max_results cfg"
    by (simp add: rank_results_def)
  moreover have "descending (rank_results cfg ?rs)"
    unfolding rank_results_def by (intro descending_take descending_sort)
  moreover have dr: "distinct (map fst (rank_results cfg ?rs))" by (rule rank_results_distinct)
  moreover have sub: "set (rank_results cfg ?rs) \<subseteq> set (dedupe ?rs [])"
    by (rule rank_results_subset)
  moreover have "\<forall>t s t' s'. (t, s) \<in> set (dedupe ?rs []) \<and>
      (t, s) \<notin> set (rank_results cfg ?rs) \<and> (t', s') \<in> set (rank_results cfg ?rs) \<longrightarrow> s \<le> s'"
    using rank_results_cut[of _ _ ?rs cfg] by blast
  moreover have "length (dedupe ?rs []) \<le> max_results cfg \<longrightarrow>
      set (rank_results cfg ?rs) = set (dedupe ?rs [])"
    using rank_results_all[of ?rs cfg] by blast
  moreover have "filter (\<lambda>r. fst r = t) (dedupe ?rs []) = [(t, max a b)] \<and>
      (\<forall>s'. (t, s') \<in> set (rank_results cfg ?rs) \<longrightarrow> s' = max a b) \<and>
      (length (dedupe ?rs []) \<le> max_results cfg \<longrightarrow>
         filter (\<lambda>r. fst r = t) (rank_results cfg ?rs) = [(t, max a b)])"
    if h: "(t, a) \<in> set normal \<and> (t, b) \<in> set reversed \<and>
           (\<forall>s'. (t, s') \<in> set ?rs \<longrightarrow> s' = a \<or> s' = b)"
  proof -
    from h dedupe_two[of t a normal b reversed] have
      m: "(t, max a b) \<in> set (dedupe ?rs [])" by blast
    have one: "filter (\<lambda>r. fst r = t) (dedupe ?rs []) = [(t, max a b)]"
      by (rule filter_text_distinct[OF d m])
    have "s' = max a b" if "(t, s') \<in> set (rank_results cfg ?rs)" for s'
    proof -
      from that sub have "(t, s') \<in> set (dedupe ?rs [])" by blast
      with d m show ?thesis by (meson eq_key_imp_eq_value)
    qed
    moreover have "filter (\<lambda>r. fst r = t) (rank_results cfg ?rs) = [(t, max a b)]"
      if "length (dedupe ?rs []) \<le> max_results cfg"
    proof -
      from rank_results_all[OF that] m have "(t, max a b) \<in> set (rank_results cfg ?rs)" by simp
      from filter_text_distinct[OF dr this] show ?thesis .
    qed
    ultimately show ?thesis using one by blast
  qed
  moreover have "main_ranked cfg bitstream dictionary = Inr (rank_results cfg ?rs)"
    if "decode_with_polarity cfg bitstream dictionary False = Inr normal \<and>
        decode_with_polarity cfg bitstream dictionary True = Inr reversed"
    using that by (simp add: main_ranked_def ENABLE_REVERSE_POLARITY_def)
  ultimately show ?thesis using d by blast
qed

theorem rank_results_spec_witness:
  "rank_results module_config ([(''HI'', 79/10), (''SE'', 7)] @ [(''HI'', 5), (''MO'', 8)])
     = [(''MO'', 8), (''HI'', 79/10), (''SE'', 7)] \<and>
   dedupe ([(''HI'', 79/10), (''SE'', 7)] @ [(''HI'', 5), (''MO'', 8)]) []
     = [(''HI'', 79/10), (''SE'', 7), (''MO'', 8)] \<and>
   filter (\<lambda>r. fst r = ''HI'')
     (rank_results module_config ([(''HI'', 79/10), (''SE'', 7)] @ [(''HI'', 5), (''MO'', 8)]))
     = [(''HI'', max (79/10) 5)] \<and>
   decode_with_polarity module_config ''111111'' {''HI''} False = Inr [(''HI'', 79/10)] \<and>
   decode_with_polarity module_config ''111111'' {''HI''} True = Inr [] \<and>
   main_ranked module_config ''111111'' {''HI''} = Inr [(''HI'', 79/10)]"
  using rank_results_spec [where normal = "[(''HI'', 79/10), (''SE'', 7)]"
          and reversed = "[(''HI'', 5), (''MO'', 8)]" and cfg = module_config
          and t = "''HI''" and a = "79/10" and b = 5]
        rank_results_spec [where normal = "[(''HI'', 79/10)]" and reversed = "[]"
          and cfg = module_config and bitstream = "''111111''" and dictionary = "{''HI''}"]
        polarity_normal [of module_config "{''HI''}"] polarity_inverted [of module_config "{''HI''}"]
        run_dots run_dashes
  by (simp add: keep_best_def module_config_def MAX_RESULTS_def rank_results_def)

end
